theory Spec2Isabelle
  imports Complex_Main
begin

section \<open>Python values used by \<open>call_modifications.py\<close>\<close>

text \<open>
  Exceptions are values. Every \<open>raise\<close> of the source and every implicit failure of
  an indexing, a dictionary lookup or a conversion is one of these.
\<close>

datatype error =
    StopIteration
  | IndexError
  | KeyError
  | ZeroDivisionError
  | TypeError
  | ValueError string
  | RuntimeError string

text \<open>\<open>xs[i]\<close> for an index that is never negative: out of range raises.\<close>

definition py_index :: "'a list \<Rightarrow> nat \<Rightarrow> error + 'a" where
  "py_index xs i = (if i < length xs then Inr (xs ! i) else Inl IndexError)"

text \<open>
  Sequencing: \<open>on_value m f\<close> goes on with the value of \<open>m\<close>, or stops with the
  exception \<open>m\<close> raised.
\<close>

definition on_value :: "error + 'a \<Rightarrow> ('a \<Rightarrow> error + 'b) \<Rightarrow> error + 'b" where
  "on_value m f = (case m of Inl e \<Rightarrow> Inl e | Inr x \<Rightarrow> f x)"

text \<open>\<open>xs[a:b]\<close>: a negative bound counts from the end, every bound is clipped.\<close>

definition py_slice :: "'a list \<Rightarrow> int \<Rightarrow> int \<Rightarrow> 'a list" where
  "py_slice xs a b =
     (let n = int (length xs);
          lo = (if a < 0 then max 0 (a + n) else min a n);
          hi = (if b < 0 then max 0 (b + n) else min b n)
      in take (nat (hi - lo)) (drop (nat lo) xs))"

text \<open>\<open>sep.join(ws)\<close>.\<close>

fun str_join :: "string \<Rightarrow> string list \<Rightarrow> string" where
  "str_join sep [] = []"
| "str_join sep [w] = w"
| "str_join sep (w # v # ws) = w @ sep @ str_join sep (v # ws)"

definition tab :: string where
  "tab = [CHR 0x09]"

section \<open>The orchestrator: pool sizes, device ids, start-up checks\<close>

text \<open>
  The options of \<open>args\<close> that the orchestrator reads, and the facts of the machine it
  asks for: \<open>use_cuda\<close> (imported from \<open>utils.constants_torch\<close>),
  \<open>torch.cuda.device_count()\<close>, \<open>os.path.abspath\<close>, \<open>os.path.exists\<close>,
  \<open>os.path.isdir\<close>, whether \<open>mp.set_start_method('spawn')\<close> raises \<open>RuntimeError\<close>,
  and the constant \<open>nproc_to_call_mods_in_cpu_mode\<close> of \<open>utils.process_utils\<close>.
\<close>

record args =
  model_path :: string
  input_path :: string
  nproc :: int
  nproc_gpu :: int

record machine =
  use_cuda :: bool
  device_count :: nat
  abspath :: "string \<Rightarrow> string"
  path_exists :: "string \<Rightarrow> bool"
  path_isdir :: "string \<Rightarrow> bool"
  set_start_method_raises :: bool
  nproc_to_call_mods_in_cpu_mode :: int

text \<open>
  What the orchestrator does to the outside, in program order: it puts the sentinel
  \<open>"kill"\<close> on a queue, starts a worker process, drains the error counts while the
  extraction workers live, or joins a group of workers.
\<close>

datatype queue = Fast5s_q | Features_batch_q | Pred_str_q

datatype worker =
    Read_features_file
  | Read_features_fast5s_q
  | Call_mods_q nat
  | Write_predstr_to_file

datatype action =
    Put_kill queue
  | Start worker
  | Drain_errornum_q
  | Join_features_batch_procs
  | Join_call_mods_procs
  | Join_read_features_file
  | Join_writer

text \<open>\<open>_get_gpus\<close>: the device ids, repeated 1000 times.\<close>

definition get_gpus :: "nat \<Rightarrow> nat list" where
  "get_gpus num_gpus =
     concat (replicate 1000 (if num_gpus > 0 then [0..<num_gpus] else [0]))"

text \<open>
  The loop \<open>for _ in range(n): start _call_mods_q on gpulist[gpuindex]; gpuindex += 1\<close>.
  The workers started before an \<open>IndexError\<close> stay started.
\<close>

fun start_call_mods :: "nat list \<Rightarrow> nat \<Rightarrow> nat \<Rightarrow> action list \<times> error option" where
  "start_call_mods gpulist gpuindex 0 = ([], None)"
| "start_call_mods gpulist gpuindex (Suc k) =
     (case py_index gpulist gpuindex of
        Inl e \<Rightarrow> ([], Some e)
      | Inr device \<Rightarrow>
          (case start_call_mods gpulist (gpuindex + 1) k of
             (acts, r) \<Rightarrow> (Start (Call_mods_q device) # acts, r)))"

text \<open>
  Lines 384 to 390 of \<open>_call_mods_from_fast5s_gpu\<close>: the effective
  \<open>(nproc, nproc_gpu)\<close>.
\<close>

definition gpu_pool_sizes :: "int \<Rightarrow> int \<Rightarrow> int \<times> int" where
  "gpu_pool_sizes a_nproc a_nproc_gpu =
     (let nproc_gpu = (if a_nproc_gpu < 1 then 1 else a_nproc_gpu);
          nproc = (if a_nproc \<le> nproc_gpu + 1 then nproc_gpu + 1 + 1 else a_nproc)
      in (nproc, nproc_gpu))"

text \<open>
  \<open>_call_mods_from_fast5s_gpu\<close>. \<open>range(k)\<close> is empty for \<open>k \<le> 0\<close>, which is
  what \<open>nat k\<close> gives.
\<close>

definition call_mods_from_fast5s_gpu :: "machine \<Rightarrow> args \<Rightarrow> action list \<times> error option" where
  "call_mods_from_fast5s_gpu m a =
     (case gpu_pool_sizes (nproc a) (nproc_gpu a) of
        (np, np_gpu) \<Rightarrow>
          (let readers = Put_kill Fast5s_q
                 # replicate (nat (np - np_gpu - 1)) (Start Read_features_fast5s_q)
           in case start_call_mods (get_gpus (device_count m)) 0 (nat np_gpu) of
                (callers, Some e) \<Rightarrow> (readers @ callers, Some e)
              | (callers, None) \<Rightarrow>
                  (readers @ callers @
                     [Start Write_predstr_to_file, Drain_errornum_q,
                      Join_features_batch_procs, Put_kill Features_batch_q,
                      Join_call_mods_procs, Put_kill Pred_str_q, Join_writer],
                   None)))"

text \<open>
  \<open>_call_mods_from_fast5s_cpu2\<close>: the scorers take the default \<open>device=0\<close>, no
  device list is read.
\<close>

definition call_mods_from_fast5s_cpu2 :: "machine \<Rightarrow> args \<Rightarrow> action list \<times> error option" where
  "call_mods_from_fast5s_cpu2 m a =
     (let nproc_call_mods = nproc_to_call_mods_in_cpu_mode m;
          np = (if nproc a \<le> nproc_call_mods + 1 then nproc_call_mods + 1 + 1 else nproc a)
      in (Put_kill Fast5s_q
            # replicate (nat (np - nproc_call_mods - 1)) (Start Read_features_fast5s_q)
            @ replicate (nat nproc_call_mods) (Start (Call_mods_q 0))
            @ [Start Write_predstr_to_file, Drain_errornum_q,
               Join_features_batch_procs, Put_kill Features_batch_q,
               Join_call_mods_procs, Put_kill Pred_str_q, Join_writer],
          None))"

text \<open>
  The branch of \<open>call_mods\<close> for a feature file: the number of scorer workers
  \<open>nproc_dp\<close>.
\<close>

definition file_mode_nproc_dp :: "machine \<Rightarrow> args \<Rightarrow> int" where
  "file_mode_nproc_dp m a =
     (let np = (if nproc a < 3 then 3 else nproc a)
      in if use_cuda m
         then (let d = nproc_gpu a;
                   d = (if d > np - 2 then np - 2 else d)
               in if d < 1 then 1 else d)
         else (let d = np - 2
               in if d > nproc_to_call_mods_in_cpu_mode m
                  then nproc_to_call_mods_in_cpu_mode m else d))"

definition call_mods_from_file :: "machine \<Rightarrow> args \<Rightarrow> action list \<times> error option" where
  "call_mods_from_file m a =
     (case start_call_mods (get_gpus (device_count m)) 0 (nat (file_mode_nproc_dp m a)) of
        (callers, Some e) \<Rightarrow> (Start Read_features_file # callers, Some e)
      | (callers, None) \<Rightarrow>
          (Start Read_features_file # callers @
             [Start Write_predstr_to_file, Join_call_mods_procs, Put_kill Pred_str_q,
              Join_read_features_file, Join_writer],
           None))"

text \<open>Lines 548 to 553 of \<open>call_mods\<close>: the two path checks, in their order.\<close>

definition check_paths :: "machine \<Rightarrow> args \<Rightarrow> error option" where
  "check_paths m a =
     (if \<not> path_exists m (abspath m (model_path a))
      then Some (ValueError ''--model_path is not set right!'')
      else if \<not> path_exists m (abspath m (input_path a))
      then Some (ValueError ''--input_path does not exist!'')
      else None)"

text \<open>
  \<open>call_mods\<close>. The \<open>.success\<close> marker file (a fresh uuid name, removed if present)
  and the preprocessing of the fast5 directory are calls into other modules and start no
  worker; they are left out.
\<close>

definition call_mods :: "machine \<Rightarrow> args \<Rightarrow> action list \<times> error option" where
  "call_mods m a =
     (if use_cuda m \<and> set_start_method_raises m
      then ([], Some (RuntimeError ''torch.multiprocessing -> RuntimeError''))
      else case check_paths m a of
             Some e \<Rightarrow> ([], Some e)
           | None \<Rightarrow>
               if path_isdir m (abspath m (input_path a))
               then (if use_cuda m then call_mods_from_fast5s_gpu m a
                     else call_mods_from_fast5s_cpu2 m a)
               else call_mods_from_file m a)"

text \<open>A machine with one accelerator device, where every path exists and is a directory.\<close>

definition one_gpu_machine :: machine where
  "one_gpu_machine =
     \<lparr>use_cuda = True, device_count = 1, abspath = (\<lambda>p. p), path_exists = (\<lambda>p. True),
      path_isdir = (\<lambda>p. True), set_start_method_raises = False,
      nproc_to_call_mods_in_cpu_mode = 2\<rparr>"

section \<open>Scoring one feature batch: \<open>_call_mods\<close>\<close>

text \<open>
  A feature batch is the 7-tuple of parallel lists that the readers put on the queue.
\<close>

record features_batch =
  sampleinfo :: "string list"
  kmers :: "nat list list"
  base_means :: "real list list"
  base_stds :: "real list list"
  base_signal_lens :: "int list list"
  k_signals :: "real list list list"
  labels :: "int list"

text \<open>
  What \<open>_call_mods\<close> asks of its libraries and of the other modules, taken as
  parameters: the call \<open>model(FloatTensor(b_kmers, device), ...)\<close> of lines 159 to 162,
  that is the five conversions by \<open>FloatTensor\<close> of \<open>utils.constants_torch\<close> and
  the classifier, which answers the rows of \<open>vlogits\<close> (the only result that is read)
  or raises what either of them raises (torch refuses with a \<open>ValueError\<close> a nested
  list whose rows differ in length; a classifier raises on a shape it was not built
  for); \<open>sklearn.metrics.accuracy_score\<close>, \<open>np.mean\<close>, the floating-point \<open>+\<close>,
  \<open>-\<close>, \<open>/\<close> and \<open>round(x, 6)\<close> on the classifier's outputs, \<open>str\<close> on a float and
  on a label, the dictionary \<open>code2base_dna\<close> of \<open>utils.process_utils\<close>, and what
  \<open>np.arange\<close> answers on integers that no machine integer holds. A finite float is a
  real number, so the outputs are reals and comparing them is exact; what rounds is a
  parameter. A number that comes out of a numpy array is an integer or a \<open>float64\<close>.
\<close>

datatype np_number = Np_int int | Np_float

record library =
  model :: "nat list list \<Rightarrow> real list list \<Rightarrow> real list list \<Rightarrow> int list list
              \<Rightarrow> real list list list \<Rightarrow> error + real list list"
  accuracy_score :: "int list \<Rightarrow> nat list \<Rightarrow> error + real"
  np_mean :: "real list \<Rightarrow> real"
  float_add :: "real \<Rightarrow> real \<Rightarrow> real"
  float_sub :: "real \<Rightarrow> real \<Rightarrow> real"
  float_div :: "real \<Rightarrow> real \<Rightarrow> real"
  round6 :: "real \<Rightarrow> real"
  str_float :: "real \<Rightarrow> string"
  str_label :: "nat \<Rightarrow> string"
  code2base_dna :: "nat \<Rightarrow> char option"
  arange_objects :: "int \<Rightarrow> int \<Rightarrow> int \<Rightarrow> error + np_number list"




text \<open>
  \<open>torch.max(vlogits.data, 1)\<close>, the indices: for each row the index of its maximum,
  the first one when several entries are maximal; a row with no entry raises.
\<close>

fun argmax_from :: "real \<Rightarrow> nat \<Rightarrow> nat \<Rightarrow> real list \<Rightarrow> nat" where
  "argmax_from best besti i [] = besti"
| "argmax_from best besti i (x # xs) =
     (if best < x then argmax_from x i (Suc i) xs else argmax_from best besti (Suc i) xs)"

definition torch_argmax :: "real list \<Rightarrow> error + nat" where
  "torch_argmax row = (case row of [] \<Rightarrow> Inl IndexError | x # xs \<Rightarrow> Inr (argmax_from x 0 1 xs))"

fun torch_max_dim1 :: "real list list \<Rightarrow> error + nat list" where
  "torch_max_dim1 [] = Inr []"
| "torch_max_dim1 (row # rows) =
     (case torch_argmax row of
        Inl e \<Rightarrow> Inl e
      | Inr i \<Rightarrow> (case torch_max_dim1 rows of Inl e \<Rightarrow> Inl e | Inr is \<Rightarrow> Inr (i # is)))"

text \<open>\<open>''.join([code2base_dna[x] for x in kmer])\<close>: a code that is no key raises.\<close>

fun decode_kmer :: "library \<Rightarrow> nat list \<Rightarrow> error + string" where
  "decode_kmer L [] = Inr []"
| "decode_kmer L (x # xs) =
     (case code2base_dna L x of
        None \<Rightarrow> Inl KeyError
      | Some c \<Rightarrow> (case decode_kmer L xs of Inl e \<Rightarrow> Inl e | Inr cs \<Rightarrow> Inr (c # cs)))"

text \<open>Lines 177 to 179: the two normalised probabilities of a row.\<close>

definition norm_probs :: "library \<Rightarrow> real \<Rightarrow> real \<Rightarrow> real \<times> real" where
  "norm_probs L prob_0 prob_1 =
     (let prob_0_norm = round6 L (float_div L prob_0 (float_add L prob_0 prob_1));
          prob_1_norm = round6 L (float_sub L 1 prob_0_norm)
      in (prob_0_norm, prob_1_norm))"

text \<open>
  Lines 182 to 188: the window of the k-mer that goes into the output line.
  \<open>int(np.floor(len / 2))\<close> is \<open>len div 2\<close>.
\<close>

definition kmer_window :: "string \<Rightarrow> string" where
  "kmer_window b_idx_kmer =
     (let center_idx = int (length b_idx_kmer) div 2;
          bkmer_start = (if center_idx - 2 \<ge> 0 then center_idx - 2 else 0);
          bkmer_end = (if center_idx + 3 \<le> int (length b_idx_kmer) then center_idx + 3
                       else int (length b_idx_kmer))
      in py_slice b_idx_kmer bkmer_start bkmer_end)"

text \<open>The body of \<open>for idx in range(len(b_sampleinfo))\<close>: one output line.\<close>

definition pred_line ::
  "library \<Rightarrow> string list \<Rightarrow> nat list list \<Rightarrow> real list list \<Rightarrow> nat list \<Rightarrow> nat
     \<Rightarrow> error + string" where
  "pred_line L b_sampleinfo b_kmers logits predicted idx =
     on_value (py_index logits idx) (\<lambda>row.
     on_value (py_index row 0) (\<lambda>prob_0.
     on_value (py_index row 1) (\<lambda>prob_1.
     on_value (py_index b_kmers idx) (\<lambda>kmer.
     on_value (decode_kmer L kmer) (\<lambda>b_idx_kmer.
     on_value (py_index b_sampleinfo idx) (\<lambda>info.
     on_value (py_index predicted idx) (\<lambda>called.
       Inr (str_join tab
              [info,
               str_float L (fst (norm_probs L prob_0 prob_1)),
               str_float L (snd (norm_probs L prob_0 prob_1)),
               str_label L called,
               kmer_window b_idx_kmer]))))))))"

text \<open>\<open>for idx in idxs: pred_str.append(line idx)\<close>, stopping at the first exception.\<close>

fun pred_lines :: "(nat \<Rightarrow> error + string) \<Rightarrow> nat list \<Rightarrow> string list \<Rightarrow> error + string list" where
  "pred_lines line [] pred_str = Inr pred_str"
| "pred_lines line (idx # idxs) pred_str =
     (case line idx of Inl e \<Rightarrow> Inl e | Inr l \<Rightarrow> pred_lines line idxs (pred_str @ [l]))"

text \<open>
  One turn of the loop over \<open>np.arange(0, len(sampleinfo), batch_size)\<close> for an
  integer start \<open>i\<close>, on the state \<open>(pred_str, accuracys, batch_num)\<close>. An exception
  of the call of lines 159 to 162, of \<open>torch.max\<close>, of \<open>accuracy_score\<close> or of a line
  ends the turn.
\<close>

definition call_mods_step ::
  "library \<Rightarrow> features_batch \<Rightarrow> int \<Rightarrow> int \<Rightarrow> string list \<times> real list \<times> nat
     \<Rightarrow> error + string list \<times> real list \<times> nat" where
  "call_mods_step L fb batch_size i st =
     (case st of (pred_str, accuracys, batch_num) \<Rightarrow>
      let batch_s = i; batch_e = i + batch_size;
          b_sampleinfo = py_slice (sampleinfo fb) batch_s batch_e;
          b_kmers = py_slice (kmers fb) batch_s batch_e;
          b_base_means = py_slice (base_means fb) batch_s batch_e;
          b_base_stds = py_slice (base_stds fb) batch_s batch_e;
          b_base_signal_lens = py_slice (base_signal_lens fb) batch_s batch_e;
          b_k_signals = py_slice (k_signals fb) batch_s batch_e;
          b_labels = py_slice (labels fb) batch_s batch_e
      in if length b_sampleinfo > 0
         then (case model L b_kmers b_base_means b_base_stds b_base_signal_lens b_k_signals of
                 Inl e \<Rightarrow> Inl e | Inr logits \<Rightarrow>
               case torch_max_dim1 logits of Inl e \<Rightarrow> Inl e | Inr predicted \<Rightarrow>
               case accuracy_score L b_labels predicted of Inl e \<Rightarrow> Inl e | Inr acc_batch \<Rightarrow>
               case pred_lines (pred_line L b_sampleinfo b_kmers logits predicted)
                      [0..<length b_sampleinfo] pred_str of
                 Inl e \<Rightarrow> Inl e
               | Inr pred_str' \<Rightarrow> Inr (pred_str', accuracys @ [acc_batch], batch_num + 1))
         else Inr st)"



subsection \<open>What the claims about \<open>_call_mods\<close> say\<close>

text \<open>
  The window as the specification words it: \<open>seq[max(0, c-2) : min(L, c+3)]\<close> with
  \<open>c = floor(L/2)\<close>.
\<close>

definition spec_window :: "string \<Rightarrow> string" where
  "spec_window seq =
     (let l = int (length seq); c = l div 2
      in py_slice seq (max 0 (c - 2)) (min l (c + 3)))"








text \<open>
  A library and a batch of three records to run the definitions on. As torch does, the
  call refuses a list whose rows differ in length; the classifier then answers
  \<open>(1/4, 3/4)\<close> for a k-mer that starts with code 0 and \<open>(3/4, 1/4)\<close> otherwise.
  The arithmetic is exact, \<open>str\<close> names the four values it meets, and an array of
  objects holds the integers themselves. The records of \<open>example_batch\<close> have 7
  bases and 2 signal values per base; those of \<open>ragged_batch\<close> have k-mers of 3, 7
  and 1 bases.
\<close>

definition rectangular :: "'a list list \<Rightarrow> bool" where
  "rectangular rows \<longleftrightarrow> list_all (\<lambda>row. length row = length (hd rows)) rows"

definition example_library :: library where
  "example_library =
     \<lparr>model = (\<lambda>ks ms ss ls gs.
                 if rectangular ks \<and> rectangular ms \<and> rectangular ss \<and> rectangular ls
                    \<and> rectangular gs \<and> rectangular (concat gs)
                 then Inr (map (\<lambda>k. if take 1 k = [0] then [1/4, 3/4] else [3/4, 1/4]) ks)
                 else Inl (ValueError ''expected sequence of equal lengths'')),
      accuracy_score = (\<lambda>ys ps. if length ys = length ps then Inr 1
                                 else Inl (ValueError ''inconsistent numbers of samples'')),
      np_mean = (\<lambda>xs. 1),
      float_add = (+), float_sub = (-), float_div = (/),
      round6 = (\<lambda>x. x),
      str_float = (\<lambda>x. if x = 1/4 then ''0.25'' else if x = 3/4 then ''0.75'' else ''?''),
      str_label = (\<lambda>n. if n = 0 then ''0'' else ''1''),
      code2base_dna = (\<lambda>c. if c = 0 then Some CHR ''A'' else if c = 1 then Some CHR ''C''
                            else if c = 2 then Some CHR ''G'' else if c = 3 then Some CHR ''T''
                            else None),
      arange_objects = (\<lambda>start stop step.
         Inr (map (\<lambda>j. Np_int (start + int j * step))
                [0..<nat (- ((start - stop) div step))]))\<rparr>"

definition example_batch :: features_batch where
  "example_batch =
     \<lparr>sampleinfo = [''r1'', ''r2'', ''r3''],
      kmers = [[0, 1, 2, 3, 0, 1, 2], [1, 1, 1, 0, 0, 0, 3], [2, 2, 0, 1, 3, 3, 0]],
      base_means = replicate 3 (replicate 7 0),
      base_stds = replicate 3 (replicate 7 1),
      base_signal_lens = replicate 3 (replicate 7 2),
      k_signals = replicate 3 (replicate 7 [0, 0]),
      labels = [1, 0, 0]\<rparr>"


section \<open>Reading a feature file: \<open>_read_features_file\<close>\<close>

text \<open>
  \<open>s.strip()\<close> removes the white space at both ends (the ASCII characters for which
  \<open>str.isspace\<close> holds), \<open>s.split(sep)\<close> cuts at every \<open>sep\<close> and never returns an
  empty list.
\<close>

definition is_space :: "char \<Rightarrow> bool" where
  "is_space c \<longleftrightarrow> c \<in> set [CHR '' '', CHR 0x09, CHR 0x0A, CHR 0x0B, CHR 0x0C, CHR 0x0D,
                           CHR 0x1C, CHR 0x1D, CHR 0x1E, CHR 0x1F]"

definition str_strip :: "string \<Rightarrow> string" where
  "str_strip s = rev (dropWhile is_space (rev (dropWhile is_space s)))"

fun str_split :: "char \<Rightarrow> string \<Rightarrow> string list" where
  "str_split sep [] = [[]]"
| "str_split sep (c # cs) =
     (if c = sep then [] # str_split sep cs
      else (case str_split sep cs of w # ws \<Rightarrow> (c # w) # ws | [] \<Rightarrow> [[c]]))"

text \<open>
  The conversions the reader calls: \<open>float(x)\<close> and \<open>int(x)\<close>, which raise
  \<open>ValueError\<close> on a string that is no number (\<open>None\<close> here), and the dictionary
  \<open>base2code_dna\<close> of \<open>utils.process_utils\<close>.
\<close>

record conversions =
  py_float :: "string \<Rightarrow> real option"
  py_int :: "string \<Rightarrow> int option"
  base2code_dna :: "char \<Rightarrow> nat option"

definition to_float :: "conversions \<Rightarrow> string \<Rightarrow> error + real" where
  "to_float P x = (case py_float P x of
                     None \<Rightarrow> Inl (ValueError ''could not convert string to float'')
                   | Some r \<Rightarrow> Inr r)"

definition to_int :: "conversions \<Rightarrow> string \<Rightarrow> error + int" where
  "to_int P x = (case py_int P x of
                   None \<Rightarrow> Inl (ValueError ''invalid literal for int()'')
                 | Some n \<Rightarrow> Inr n)"

definition to_code :: "conversions \<Rightarrow> char \<Rightarrow> error + nat" where
  "to_code P x = (case base2code_dna P x of None \<Rightarrow> Inl KeyError | Some n \<Rightarrow> Inr n)"

text \<open>A list comprehension \<open>[f(x) for x in xs]\<close> whose body may raise.\<close>

fun comprehension :: "('a \<Rightarrow> error + 'b) \<Rightarrow> 'a list \<Rightarrow> error + 'b list" where
  "comprehension f [] = Inr []"
| "comprehension f (x # xs) =
     (case f x of
        Inl e \<Rightarrow> Inl e
      | Inr y \<Rightarrow> (case comprehension f xs of Inl e \<Rightarrow> Inl e | Inr ys \<Rightarrow> Inr (y # ys)))"

text \<open>
  The seven values that one line adds to the seven lists, in the order the source
  computes them (lines 83 to 89 and again 111 to 117). The lists are local to the
  function, so a line that raises half-way leaves nothing to see of its first values.
\<close>

record sample =
  s_info :: string
  s_kmer :: "nat list"
  s_means :: "real list"
  s_stds :: "real list"
  s_signal_lens :: "int list"
  s_signals :: "real list list"
  s_label :: int

definition parse_features :: "conversions \<Rightarrow> string list \<Rightarrow> error + sample" where
  "parse_features P words =
     on_value (py_index words 6) (\<lambda>w6.
     on_value (comprehension (to_code P) w6) (\<lambda>kmer.
     on_value (py_index words 7) (\<lambda>w7.
     on_value (comprehension (to_float P) (str_split CHR '','' w7)) (\<lambda>means.
     on_value (py_index words 8) (\<lambda>w8.
     on_value (comprehension (to_float P) (str_split CHR '','' w8)) (\<lambda>stds.
     on_value (py_index words 9) (\<lambda>w9.
     on_value (comprehension (to_int P) (str_split CHR '','' w9)) (\<lambda>lens.
     on_value (py_index words 10) (\<lambda>w10.
     on_value (comprehension (\<lambda>x. comprehension (to_float P) (str_split CHR '','' x))
                 (str_split CHR '';'' w10)) (\<lambda>signals.
     on_value (py_index words 11) (\<lambda>w11.
     on_value (to_int P w11) (\<lambda>label.
       Inr \<lparr>s_info = str_join tab (py_slice words 0 6), s_kmer = kmer, s_means = means,
            s_stds = stds, s_signal_lens = lens, s_signals = signals,
            s_label = label\<rparr>))))))))))))"

definition empty_batch :: features_batch where
  "empty_batch = \<lparr>sampleinfo = [], kmers = [], base_means = [], base_stds = [],
                   base_signal_lens = [], k_signals = [], labels = []\<rparr>"

definition append_sample :: "sample \<Rightarrow> features_batch \<Rightarrow> features_batch" where
  "append_sample s fb =
     \<lparr>sampleinfo = sampleinfo fb @ [s_info s], kmers = kmers fb @ [s_kmer s],
      base_means = base_means fb @ [s_means s], base_stds = base_stds fb @ [s_stds s],
      base_signal_lens = base_signal_lens fb @ [s_signal_lens s],
      k_signals = k_signals fb @ [s_signals s], labels = labels fb @ [s_label s]\<rparr>"

text \<open>
  What goes through \<open>features_batch_q\<close>, and the state of the reader: its counters,
  the read id of the last line, the seven lists (\<open>pending\<close>), and the messages it has put on the
  queue, oldest first. (After a \<open>put\<close> of a batch the reader sleeps while the queue is
  longer than \<open>queue_size_border_f5batch\<close>; that changes when it puts, not what.)
\<close>

datatype message = Features features_batch | Kill

record reader =
  r_num :: int
  b_num :: int
  readid_pre :: string
  pending :: features_batch
  features_batch_q :: "message list"

definition line_words :: "string \<Rightarrow> string list" where
  "line_words line = str_split (CHR 0x09) (str_strip line)"

text \<open>Lines 94 to 109: what a change of the read id does before the line is added.\<close>

definition new_read :: "int \<Rightarrow> string \<Rightarrow> reader \<Rightarrow> reader \<times> error option" where
  "new_read f5_batch_size readidtmp st =
     (if readidtmp \<noteq> readid_pre st
      then (let st1 = st\<lparr>r_num := r_num st + 1, readid_pre := readidtmp\<rparr>
            in if f5_batch_size = 0 then (st1, Some ZeroDivisionError)
               else if r_num st1 mod f5_batch_size = 0
               then (st1\<lparr>features_batch_q := features_batch_q st1 @ [Features (pending st1)],
                         pending := empty_batch, b_num := b_num st1 + 1\<rparr>, None)
               else (st1, None))
      else (st, None))"

text \<open>The loop \<open>for line in infile\<close>, stopping at the first exception.\<close>

fun read_loop :: "conversions \<Rightarrow> int \<Rightarrow> string list \<Rightarrow> reader \<Rightarrow> reader \<times> error option" where
  "read_loop P f5_batch_size [] st = (st, None)"
| "read_loop P f5_batch_size (line # rest) st =
     (case py_index (line_words line) 4 of
        Inl e \<Rightarrow> (st, Some e)
      | Inr readidtmp \<Rightarrow>
          (case new_read f5_batch_size readidtmp st of
             (st1, Some e) \<Rightarrow> (st1, Some e)
           | (st1, None) \<Rightarrow>
               (case parse_features P (line_words line) of
                  Inl e \<Rightarrow> (st1, Some e)
                | Inr s \<Rightarrow>
                    read_loop P f5_batch_size rest (st1\<lparr>pending := append_sample s (pending st1)\<rparr>))))"

text \<open>
  \<open>_read_features_file\<close>, on the lines of the opened file: the messages put on the
  queue and the exception that ended the function, if one did. \<open>next(infile)\<close> on a
  file with no line raises \<open>StopIteration\<close>.
\<close>

definition read_features_file ::
  "conversions \<Rightarrow> string list \<Rightarrow> int \<Rightarrow> message list \<times> error option" where
  "read_features_file P infile f5_batch_size =
     (case infile of
        [] \<Rightarrow> ([], Some StopIteration)
      | line # rest \<Rightarrow>
          (case py_index (line_words line) 4 of
             Inl e \<Rightarrow> ([], Some e)
           | Inr readid \<Rightarrow>
               (case parse_features P (line_words line) of
                  Inl e \<Rightarrow> ([], Some e)
                | Inr s \<Rightarrow>
                    (case read_loop P f5_batch_size rest
                            \<lparr>r_num = 0, b_num = 0, readid_pre = readid,
                             pending = append_sample s empty_batch, features_batch_q = []\<rparr> of
                       (st, Some e) \<Rightarrow> (features_batch_q st, Some e)
                     | (st, None) \<Rightarrow>
                         (let st1 = st\<lparr>r_num := r_num st + 1\<rparr>;
                              st2 = (if length (sampleinfo (pending st1)) > 0
                                     then st1\<lparr>features_batch_q :=
                                                features_batch_q st1 @ [Features (pending st1)],
                                              b_num := b_num st1 + 1\<rparr>
                                     else st1)
                          in (features_batch_q st2 @ [Kill], None))))))"

subsection \<open>What the claims about \<open>_read_features_file\<close> say\<close>

text \<open>
  The runs of a list: its maximal blocks of neighbours with one key. The chunks of a
  list: its successive blocks of \<open>n\<close> elements, the last one shorter when the length
  is no multiple of \<open>n\<close>.
\<close>

fun runs :: "('a \<Rightarrow> 'k) \<Rightarrow> 'a list \<Rightarrow> 'a list list" where
  "runs k [] = []"
| "runs k [x] = [[x]]"
| "runs k (x # y # zs) =
     (if k x = k y
      then (case runs k (y # zs) of r # rs \<Rightarrow> (x # r) # rs | [] \<Rightarrow> [[x]])
      else [x] # runs k (y # zs))"

function chunks :: "nat \<Rightarrow> 'a list \<Rightarrow> 'a list list" where
  "chunks n xs = (if n = 0 \<or> xs = [] then [] else take n xs # chunks n (drop n xs))"
  by pat_completeness auto
termination
  by (relation "measure (\<lambda>(n, xs). length xs)") auto

declare chunks.simps [simp del]

definition readid_of :: "string \<Rightarrow> string" where
  "readid_of line = line_words line ! 4"

definition line_ok :: "conversions \<Rightarrow> string \<Rightarrow> bool" where
  "line_ok P line \<longleftrightarrow> 4 < length (line_words line) \<and> \<not> isl (parse_features P (line_words line))"

definition sample_of :: "conversions \<Rightarrow> string \<Rightarrow> sample" where
  "sample_of P line = projr (parse_features P (line_words line))"

definition batch_of :: "sample list \<Rightarrow> features_batch" where
  "batch_of ss =
     \<lparr>sampleinfo = map s_info ss, kmers = map s_kmer ss, base_means = map s_means ss,
      base_stds = map s_stds ss, base_signal_lens = map s_signal_lens ss,
      k_signals = map s_signals ss, labels = map s_label ss\<rparr>"

text \<open>
  The batches the flush law promises for transfer-batch size \<open>n\<close>: one per chunk of
  \<open>n\<close> read-id runs, holding the records of the lines of those runs in file order.
\<close>

definition flushed_batches :: "conversions \<Rightarrow> nat \<Rightarrow> string list \<Rightarrow> message list" where
  "flushed_batches P n infile =
     map (\<lambda>rs. Features (batch_of (map (sample_of P) (concat rs))))
       (chunks n (runs readid_of infile))"

text \<open>Conversions and a file of three reads to run the definitions on.\<close>

definition example_conversions :: conversions where
  "example_conversions =
     \<lparr>py_float = (\<lambda>x. if x = ''0.5'' then Some (1/2) else if x = ''1.5'' then Some (3/2) else None),
      py_int = (\<lambda>x. if x = ''0'' then Some 0 else if x = ''1'' then Some 1
                     else if x = ''2'' then Some 2 else None),
      base2code_dna = (\<lambda>c. if c = CHR ''A'' then Some 0 else if c = CHR ''C'' then Some 1
                            else if c = CHR ''G'' then Some 2 else if c = CHR ''T'' then Some 3
                            else None)\<rparr>"

definition example_line :: "string \<Rightarrow> string \<Rightarrow> string" where
  "example_line pos readid =
     str_join tab [''chr1'', pos, ''+'', ''2'', readid, ''t'', ''ACG'', ''0.5,1.5,0.5'',
                   ''0.5,0.5,0.5'', ''2,1,2'', ''0.5,1.5;0.5,0.5;1.5,1.5'', ''1'']
       @ [CHR 0x0A]"

definition example_file :: "string list" where
  "example_file = [example_line ''0'' ''read_a'', example_line ''1'' ''read_a'',
                   example_line ''0'' ''read_b'', example_line ''2'' ''read_c'',
                   example_line ''1'' ''read_c'']"

section \<open>Workers that share an input queue\<close>

text \<open>
  \<open>_call_mods_q\<close> on \<open>features_batch_q\<close> (lines 232 to 256) and
  \<open>_read_features_fast5s_q\<close> on \<open>fast5s_q\<close> (lines 342 to 356) run the same loop:
  take a message; if it is \<open>"kill"\<close>, put \<open>"kill"\<close> back and leave the loop;
  otherwise work on it (score the batch and put the lines on \<open>pred_str_q\<close>; extract
  the features and put them on \<open>features_batch_q\<close>) and take the next one. A worker
  that finds the queue empty sleeps and asks again, or waits in \<open>get\<close>: it makes no
  step. \<open>get\<close> and \<open>put\<close> are the atomic operations of the queue, and between them
  the workers of a pool interleave freely.

  A message is an item or the sentinel. A worker is at the top of its loop, holds an
  item it is working on, holds the sentinel it has taken and not yet put back, or has
  left its loop. The state of a pool is the queue (head first), the place of each
  worker, how often each worker has put the sentinel back, and the items worked off.
\<close>

datatype 'a queued = Item 'a | Sentinel

datatype 'a pc = Waiting | Working 'a | Holding_sentinel | Exited

record 'a pool =
  shared_q :: "'a queued list"
  pcs :: "'a pc list"
  reposts :: "nat list"
  processed :: "'a list"

text \<open>One step of worker \<open>i\<close>, if it can make one.\<close>

definition consumer_step :: "nat \<Rightarrow> 'a pool \<Rightarrow> 'a pool option" where
  "consumer_step i s =
     (if length (pcs s) \<le> i then None
      else case pcs s ! i of
        Waiting \<Rightarrow>
          (case shared_q s of
             [] \<Rightarrow> None
           | Sentinel # rest \<Rightarrow>
               Some (s\<lparr>shared_q := rest, pcs := (pcs s)[i := Holding_sentinel]\<rparr>)
           | Item a # rest \<Rightarrow>
               Some (s\<lparr>shared_q := rest, pcs := (pcs s)[i := Working a]\<rparr>))
      | Working a \<Rightarrow>
          Some (s\<lparr>processed := processed s @ [a], pcs := (pcs s)[i := Waiting]\<rparr>)
      | Holding_sentinel \<Rightarrow>
          Some (s\<lparr>shared_q := shared_q s @ [Sentinel],
                  reposts := (reposts s)[i := reposts s ! i + 1],
                  pcs := (pcs s)[i := Exited]\<rparr>)
      | Exited \<Rightarrow> None)"

text \<open>
  A schedule names the worker of each step. It runs as long as every worker it names
  can make its step.
\<close>

fun run_schedule :: "nat list \<Rightarrow> 'a pool \<Rightarrow> 'a pool option" where
  "run_schedule [] s = Some s"
| "run_schedule (i # sched) s = (case consumer_step i s of None \<Rightarrow> None | Some s' \<Rightarrow> run_schedule sched s')"

text \<open>
  The pool when the sentinel is pushed: every worker is in its loop, none has seen the
  sentinel.
\<close>

fun in_loop :: "'a pc \<Rightarrow> bool" where
  "in_loop Waiting = True"
| "in_loop (Working a) = True"
| "in_loop Holding_sentinel = False"
| "in_loop Exited = False"

definition start_pool :: "'a pc list \<Rightarrow> 'a queued list \<Rightarrow> 'a pool" where
  "start_pool ps q = \<lparr>shared_q = q, pcs = ps, reposts = replicate (length ps) 0,
                       processed = []\<rparr>"

text \<open>
  A bound on the steps a pool can still make, the sentinels in flight (on the queue or in
  the hand of a worker), and what every reachable state of a pool of \<open>k\<close> workers
  satisfies.
\<close>

fun pc_weight :: "'a pc \<Rightarrow> nat" where
  "pc_weight Waiting = 2"
| "pc_weight (Working a) = 3"
| "pc_weight Holding_sentinel = 3"
| "pc_weight Exited = 0"

definition steps_left :: "'a pool \<Rightarrow> nat" where
  "steps_left s = 2 * length (shared_q s) + sum_list (map pc_weight (pcs s))"

definition sentinels :: "'a pool \<Rightarrow> nat" where
  "sentinels s = count_list (shared_q s) Sentinel + count_list (pcs s) Holding_sentinel"

definition pool_inv :: "nat \<Rightarrow> 'a pool \<Rightarrow> bool" where
  "pool_inv k s \<longleftrightarrow>
     length (pcs s) = k \<and> length (reposts s) = k \<and> sentinels s = 1
     \<and> (\<forall>i<k. reposts s ! i = (if pcs s ! i = Exited then 1 else 0))"

subsection \<open>What the claim about the probabilities assumes of the arithmetic\<close>

text \<open>
  The usual model of binary floating-point arithmetic, for the four operations of lines
  178 and 179, with unit roundoff \<open>u\<close> (\<open>2^-24\<close> for the 32-bit floats of the
  classifier's output array, less for 64-bit ones) and underflow threshold \<open>eta\<close>:
  a sum of positive numbers is not rounded down by more than the factor \<open>1 - u\<close>; a
  quotient of size at most 2 is off by at most \<open>u\<close> times itself plus \<open>eta\<close>;
  \<open>1 - x\<close> for \<open>x\<close> in \<open>[0, 2]\<close> is off by at most \<open>u\<close> times itself;
  and \<open>round(x, 6)\<close> for \<open>|x| \<le> 5/4\<close> is, up to the factor \<open>1 +- u\<close>, a multiple
  \<open>n / 10^6\<close> whose \<open>n\<close> is an integer within \<open>5/8\<close> of \<open>x * 10^6\<close> (the
  nearest integer after a scaling that may itself round).
\<close>

definition float_model :: "real \<Rightarrow> real \<Rightarrow> library \<Rightarrow> bool" where
  "float_model u eta L \<longleftrightarrow>
     (\<forall>x y. 0 < x \<and> 0 < y \<longrightarrow> (1 - u) * (x + y) \<le> float_add L x y)
   \<and> (\<forall>x y. 0 \<le> x \<and> 0 < y \<and> x / y \<le> 2
          \<longrightarrow> \<bar>float_div L x y - x / y\<bar> \<le> u * (x / y) + eta)
   \<and> (\<forall>x. 0 \<le> x \<and> x \<le> 2 \<longrightarrow> \<bar>float_sub L 1 x - (1 - x)\<bar> \<le> u * \<bar>1 - x\<bar>)
   \<and> (\<forall>x. \<bar>x\<bar> \<le> 5 / 4 \<longrightarrow>
          (\<exists>n::int. \<bar>of_int n - x * 10 ^ 6\<bar> \<le> 5 / 8
                   \<and> \<bar>round6 L x - of_int n / 10 ^ 6\<bar> \<le> u * \<bar>of_int n / 10 ^ 6\<bar>))"

text \<open>
  A library whose arithmetic rounds: every operation is off by the full factor
  \<open>1 +- 2^-24\<close>.
\<close>

definition example_rounding_library :: library where
  "example_rounding_library =
     example_library
       \<lparr>float_add := (\<lambda>x y. (x + y) * (1 - 1 / 2 ^ 24)),
        float_sub := (\<lambda>x y. (x - y) * (1 + 1 / 2 ^ 24)),
        float_div := (\<lambda>x y. (x / y) * (1 + 1 / 2 ^ 24)),
        round6 := (\<lambda>x. (of_int (round (x * 10 ^ 6)) / 10 ^ 6) * (1 - 1 / 2 ^ 24))\<rparr>"

section \<open>Pool sizes\<close>

lemma length_get_gpus: "length (get_gpus d) = 1000 * max 1 d"
proof -
  have rep: "length (concat (replicate k xs)) = k * length xs" for k and xs :: "nat list"
    by (induction k) simp_all
  show ?thesis
    unfolding get_gpus_def by (simp add: rep max_def)
qed

lemma nth_concat_replicate:
  assumes "i < k * length xs"
  shows "concat (replicate k xs) ! i = xs ! (i mod length xs)"
  using assms
proof (induction k arbitrary: i)
  case 0
  then show ?case by simp
next
  case (Suc k)
  show ?case
  proof (cases "i < length xs")
    case True
    then show ?thesis by (simp add: nth_append)
  next
    case False
    then have ge: "length xs \<le> i" by simp
    with Suc.prems have "i - length xs < k * length xs" by simp
    then have "concat (replicate k xs) ! (i - length xs) = xs ! ((i - length xs) mod length xs)"
      by (rule Suc.IH)
    moreover have "(i - length xs) mod length xs = i mod length xs"
      using ge by (simp add: le_mod_geq)
    ultimately show ?thesis
      using False by (simp add: nth_append)
  qed
qed

lemma nth_get_gpus:
  assumes "i < 1000 * max 1 d"
  shows "get_gpus d ! i = (if d = 0 then 0 else i mod d)"
proof (cases "d = 0")
  case True
  with assms have "i < 1000 * length [0::nat]" by simp
  then have "concat (replicate 1000 [0::nat]) ! i = [0] ! (i mod length [0::nat])"
    by (rule nth_concat_replicate)
  with True show ?thesis by (simp add: get_gpus_def)
next
  case False
  with assms have lt: "i < 1000 * length [0..<d]" by (simp add: max_def)
  then have "concat (replicate 1000 [0..<d]) ! i = [0..<d] ! (i mod length [0..<d])"
    by (rule nth_concat_replicate)
  with False show ?thesis by (simp add: get_gpus_def)
qed

lemma start_call_mods_in_range:
  assumes "gpuindex + k \<le> length gpulist"
  shows "start_call_mods gpulist gpuindex k =
           (map (\<lambda>i. Start (Call_mods_q (gpulist ! i))) [gpuindex..<gpuindex + k], None)"
  using assms
proof (induction k arbitrary: gpuindex)
  case 0
  then show ?case by simp
next
  case (Suc k)
  then have lt: "gpuindex < length gpulist" and rest: "(gpuindex + 1) + k \<le> length gpulist"
    by simp_all
  have "[gpuindex..<gpuindex + Suc k] = gpuindex # [gpuindex + 1..<(gpuindex + 1) + k]"
    by (simp add: upt_conv_Cons)
  with Suc.IH [OF rest] lt show ?case
    by (simp add: py_index_def)
qed

lemma start_call_mods_overrun:
  assumes "gpuindex \<le> length gpulist" and "length gpulist < gpuindex + k"
  shows "start_call_mods gpulist gpuindex k =
           (map (\<lambda>i. Start (Call_mods_q (gpulist ! i))) [gpuindex..<length gpulist],
            Some IndexError)"
  using assms
proof (induction k arbitrary: gpuindex)
  case 0
  then show ?case by simp
next
  case (Suc k)
  show ?case
  proof (cases "gpuindex = length gpulist")
    case True
    then show ?thesis by (simp add: py_index_def)
  next
    case False
    with Suc.prems have lt: "gpuindex < length gpulist" by simp
    then have a: "gpuindex + 1 \<le> length gpulist" by simp
    from Suc.prems have b: "length gpulist < (gpuindex + 1) + k" by simp
    have "[gpuindex..<length gpulist] = gpuindex # [gpuindex + 1..<length gpulist]"
      using lt by (simp add: upt_conv_Cons)
    with Suc.IH [OF a b] lt show ?thesis
      by (simp add: py_index_def)
  qed
qed

lemma start_call_mods_error:
  "snd (start_call_mods gpulist gpuindex k) = None
     \<or> snd (start_call_mods gpulist gpuindex k) = Some IndexError"
proof (cases "gpuindex + k \<le> length gpulist")
  case True
  then show ?thesis by (simp add: start_call_mods_in_range)
next
  case False
  show ?thesis
  proof (cases "gpuindex \<le> length gpulist")
    case True
    with False show ?thesis by (simp add: start_call_mods_overrun)
  next
    case False
    then show ?thesis by (cases k) (simp_all add: py_index_def)
  qed
qed

text \<open>
  C5. In file-group (GPU) mode, when \<open>nproc \<le> nproc_gpu + 1\<close> holds for the
  \<open>nproc_gpu\<close> floored at 1, the effective \<open>nproc\<close> is \<open>nproc_gpu + 2\<close>, so at least
  that. The value is computed before anything is started and the violation raises
  nothing: the orchestrator goes on to put the sentinel on the work queue, to start its
  extraction worker (one, \<open>nproc - nproc_gpu - 1\<close>) and then its scorer workers, and
  the run of the orchestrator ends without an exception as long as the device list
  covers the scorer workers.
\<close>

theorem gpu_pool_size_correction:
  assumes "nproc a \<le> max 1 (nproc_gpu a) + 1"
  shows "gpu_pool_sizes (nproc a) (nproc_gpu a) = (max 1 (nproc_gpu a) + 2, max 1 (nproc_gpu a))
       \<and> fst (gpu_pool_sizes (nproc a) (nproc_gpu a)) \<ge> max 1 (nproc_gpu a) + 2
       \<and> (\<exists>rest. fst (call_mods_from_fast5s_gpu m a)
            = [Put_kill Fast5s_q, Start Read_features_fast5s_q, Start (Call_mods_q 0)] @ rest)
       \<and> (nat (max 1 (nproc_gpu a)) \<le> 1000 * max 1 (device_count m)
            \<longrightarrow> snd (call_mods_from_fast5s_gpu m a) = None)"
proof -
  let ?g = "max 1 (nproc_gpu a)"
  let ?gl = "get_gpus (device_count m)"
  have sizes: "gpu_pool_sizes (nproc a) (nproc_gpu a) = (?g + 2, ?g)"
    using assms by (auto simp: gpu_pool_sizes_def Let_def max_def)
  have one: "nat (?g + 2 - ?g - 1) = Suc 0" by simp
  obtain k where k: "nat ?g = Suc k"
    by (cases "nat ?g") (auto simp: max_def split: if_splits)
  have "0 < length ?gl"
    by (simp add: length_get_gpus max_def)
  moreover have "?gl ! 0 = 0"
    using nth_get_gpus [of 0 "device_count m"] by (simp add: max_def)
  ultimately have first: "py_index ?gl 0 = Inr 0"
    by (simp add: py_index_def)
  obtain acts r where rest: "start_call_mods ?gl (0 + 1) k = (acts, r)"
    by (cases "start_call_mods ?gl (0 + 1) k")
  have callers: "start_call_mods ?gl 0 (nat ?g) = (Start (Call_mods_q 0) # acts, r)"
    unfolding k using first rest by simp
  have trace: "\<exists>rest. fst (call_mods_from_fast5s_gpu m a)
            = [Put_kill Fast5s_q, Start Read_features_fast5s_q, Start (Call_mods_q 0)] @ rest"
    unfolding call_mods_from_fast5s_gpu_def sizes
    using callers one by (cases r) (simp_all add: Let_def)
  have quiet: "snd (call_mods_from_fast5s_gpu m a) = None"
    if "nat ?g \<le> 1000 * max 1 (device_count m)"
  proof -
    from that have "0 + nat ?g \<le> length ?gl"
      by (simp add: length_get_gpus)
    then have "snd (start_call_mods ?gl 0 (nat ?g)) = None"
      by (simp add: start_call_mods_in_range)
    then show ?thesis
      unfolding call_mods_from_fast5s_gpu_def sizes
      by (cases "start_call_mods ?gl 0 (nat ?g)") (simp add: Let_def)
  qed
  from sizes trace quiet show ?thesis by simp
qed

theorem gpu_pool_size_correction_witness:
  "nproc \<lparr>model_path = ''m.ckpt'', input_path = ''fast5s'', nproc = 1, nproc_gpu = 2\<rparr>
     \<le> max 1 (nproc_gpu \<lparr>model_path = ''m.ckpt'', input_path = ''fast5s'', nproc = 1, nproc_gpu = 2\<rparr>) + 1
   \<and> gpu_pool_sizes 1 2 = (4, 2)
   \<and> call_mods_from_fast5s_gpu one_gpu_machine
        \<lparr>model_path = ''m.ckpt'', input_path = ''fast5s'', nproc = 1, nproc_gpu = 2\<rparr>
       = ([Put_kill Fast5s_q, Start Read_features_fast5s_q, Start (Call_mods_q 0),
           Start (Call_mods_q 0), Start Write_predstr_to_file, Drain_errornum_q,
           Join_features_batch_procs, Put_kill Features_batch_q, Join_call_mods_procs,
           Put_kill Pred_str_q, Join_writer], None)"
proof -
  have run: "call_mods_from_fast5s_gpu one_gpu_machine
        \<lparr>model_path = ''m.ckpt'', input_path = ''fast5s'', nproc = 1, nproc_gpu = 2\<rparr>
       = ([Put_kill Fast5s_q, Start Read_features_fast5s_q, Start (Call_mods_q 0),
           Start (Call_mods_q 0), Start Write_predstr_to_file, Drain_errornum_q,
           Join_features_batch_procs, Put_kill Features_batch_q, Join_call_mods_procs,
           Put_kill Pred_str_q, Join_writer], None)"
    by code_simp
  from gpu_pool_size_correction
    [of "\<lparr>model_path = ''m.ckpt'', input_path = ''fast5s'', nproc = 1, nproc_gpu = 2\<rparr>"
        one_gpu_machine]
  show ?thesis using run by simp
qed

section \<open>Device ids\<close>

lemma start_call_mods_started:
  "fst (start_call_mods gpulist 0 n)
     = map (\<lambda>i. Start (Call_mods_q (gpulist ! i))) [0..<min n (length gpulist)]"
proof (cases "n \<le> length gpulist")
  case True
  then have "0 + n \<le> length gpulist" by simp
  then have "start_call_mods gpulist 0 n
           = (map (\<lambda>i. Start (Call_mods_q (gpulist ! i))) [0..<0 + n], None)"
    by (rule start_call_mods_in_range)
  with True show ?thesis by (simp add: min_def)
next
  case False
  then have "length gpulist < 0 + n" by simp
  with le0 have "start_call_mods gpulist 0 n
           = (map (\<lambda>i. Start (Call_mods_q (gpulist ! i))) [0..<length gpulist],
              Some IndexError)"
    by (rule start_call_mods_overrun)
  with False show ?thesis by (simp add: min_def)
qed

text \<open>
  The device list is finite. With one device it has 1000 entries: asked for 1001 scorer
  workers, the loop starts 1000 of them and the read of \<open>gpulist[1000]\<close> for the next
  one raises \<open>IndexError\<close>, in the orchestrator too. No worker of spawn index 1000
  is started.
\<close>

lemma device_list_overrun:
  "py_index (get_gpus 1) 1000 = Inl IndexError
   \<and> snd (start_call_mods (get_gpus 1) 0 1001) = Some IndexError
   \<and> length (fst (start_call_mods (get_gpus 1) 0 1001)) = 1000
   \<and> snd (call_mods_from_fast5s_gpu one_gpu_machine
        \<lparr>model_path = ''m.ckpt'', input_path = ''fast5s'', nproc = 1100, nproc_gpu = 1001\<rparr>)
       = Some IndexError"
proof -
  have len: "length (get_gpus 1) = 1000"
    by (simp add: length_get_gpus)
  have a: "py_index (get_gpus 1) 1000 = Inl IndexError"
    unfolding py_index_def len by simp
  have b: "start_call_mods (get_gpus 1) 0 1001
       = (map (\<lambda>i. Start (Call_mods_q (get_gpus 1 ! i))) [0..<length (get_gpus 1)],
          Some IndexError)"
  proof (rule start_call_mods_overrun)
    show "0 \<le> length (get_gpus 1)" by simp
    show "length (get_gpus 1) < 0 + 1001" unfolding len by simp
  qed
  have c: "snd (call_mods_from_fast5s_gpu one_gpu_machine
        \<lparr>model_path = ''m.ckpt'', input_path = ''fast5s'', nproc = 1100, nproc_gpu = 1001\<rparr>)
       = Some IndexError"
    using b by (simp add: call_mods_from_fast5s_gpu_def gpu_pool_sizes_def Let_def
        one_gpu_machine_def)
  have d: "snd (start_call_mods (get_gpus 1) 0 1001) = Some IndexError"
    unfolding b by simp
  have e: "length (fst (start_call_mods (get_gpus 1) 0 1001)) = 1000"
    unfolding b len by simp
  show ?thesis
    by (intro conjI a d e c)
qed

text \<open>
  C7. Asked for \<open>n\<close> scorer workers with \<open>d\<close> discovered devices, the loop starts,
  in spawn order, the workers of the spawn indices below \<open>min n (1000 * max 1 d)\<close>,
  and every worker it starts is given the device of its spawn index \<open>i\<close> modulo
  \<open>d\<close>, device 0 when there is no device: whatever \<open>n\<close> is, no worker is started
  on another device. All \<open>n\<close> workers are started, and nothing is raised, while
  \<open>n \<le> 1000 * max 1 d\<close>.
\<close>

theorem device_round_robin:
  "fst (start_call_mods (get_gpus d) 0 n)
     = map (\<lambda>i. Start (Call_mods_q (if d = 0 then 0 else i mod d))) [0..<min n (1000 * max 1 d)]
   \<and> (\<forall>i < length (fst (start_call_mods (get_gpus d) 0 n)).
         fst (start_call_mods (get_gpus d) 0 n) ! i
           = Start (Call_mods_q (if d = 0 then 0 else i mod d)))
   \<and> (n \<le> 1000 * max 1 d \<longrightarrow>
         start_call_mods (get_gpus d) 0 n
           = (map (\<lambda>i. Start (Call_mods_q (if d = 0 then 0 else i mod d))) [0..<n], None))"
proof -
  let ?m = "min n (1000 * max 1 d)"
  let ?dev = "\<lambda>i. Start (Call_mods_q (if d = 0 then 0 else i mod d))"
  have same: "map (\<lambda>i. Start (Call_mods_q (get_gpus d ! i))) [0..<k] = map ?dev [0..<k]"
    if "k \<le> 1000 * max 1 d" for k
  proof (rule map_cong [OF refl])
    fix i assume "i \<in> set [0..<k]"
    with that have "i < 1000 * max 1 d" by simp
    then show "Start (Call_mods_q (get_gpus d ! i)) = ?dev i"
      by (simp only: nth_get_gpus)
  qed
  have "fst (start_call_mods (get_gpus d) 0 n)
          = map (\<lambda>i. Start (Call_mods_q (get_gpus d ! i))) [0..<min n (length (get_gpus d))]"
    by (rule start_call_mods_started)
  also have "\<dots> = map (\<lambda>i. Start (Call_mods_q (get_gpus d ! i))) [0..<?m]"
    by (simp only: length_get_gpus)
  also have "\<dots> = map ?dev [0..<?m]"
    by (rule same) simp
  finally have started: "fst (start_call_mods (get_gpus d) 0 n) = map ?dev [0..<?m]" .
  have each: "\<forall>i < length (fst (start_call_mods (get_gpus d) 0 n)).
         fst (start_call_mods (get_gpus d) 0 n) ! i = ?dev i"
    unfolding started by simp
  have all: "start_call_mods (get_gpus d) 0 n = (map ?dev [0..<n], None)"
    if le: "n \<le> 1000 * max 1 d"
  proof -
    from le have "0 + n \<le> length (get_gpus d)"
      by (simp add: length_get_gpus)
    then have "start_call_mods (get_gpus d) 0 n
           = (map (\<lambda>i. Start (Call_mods_q (get_gpus d ! i))) [0..<0 + n], None)"
      by (rule start_call_mods_in_range)
    with same [OF le] show ?thesis by simp
  qed
  from started each all show ?thesis by blast
qed

theorem device_round_robin_witness:
  "fst (start_call_mods (get_gpus 2) 0 5)
       = [Start (Call_mods_q 0), Start (Call_mods_q 1), Start (Call_mods_q 0),
          Start (Call_mods_q 1), Start (Call_mods_q 0)]
   \<and> fst (start_call_mods (get_gpus 2) 0 5) ! 3 = Start (Call_mods_q (3 mod 2))
   \<and> start_call_mods (get_gpus 2) 0 5
       = ([Start (Call_mods_q 0), Start (Call_mods_q 1), Start (Call_mods_q 0),
           Start (Call_mods_q 1), Start (Call_mods_q 0)], None)
   \<and> start_call_mods (get_gpus 0) 0 3
       = ([Start (Call_mods_q 0), Start (Call_mods_q 0), Start (Call_mods_q 0)], None)"
proof -
  have two: "start_call_mods (get_gpus 2) 0 5
       = ([Start (Call_mods_q 0), Start (Call_mods_q 1), Start (Call_mods_q 0),
           Start (Call_mods_q 1), Start (Call_mods_q 0)], None)"
    using device_round_robin [of 2 5] by (simp add: upt_conv_Cons)
  have none: "start_call_mods (get_gpus 0) 0 3
       = ([Start (Call_mods_q 0), Start (Call_mods_q 0), Start (Call_mods_q 0)], None)"
    using device_round_robin [of 0 3] by (simp add: upt_conv_Cons)
  show ?thesis
    unfolding two none by simp
qed

section \<open>Start-up checks\<close>

text \<open>
  C9. When the model path or the input path does not exist, \<open>call_mods\<close> raises
  (\<open>ValueError\<close>, or the \<open>RuntimeError\<close> of the start method that comes first) and
  has started no worker and touched no queue. When both exist, the two checks raise
  nothing, and no \<open>ValueError\<close> comes out of \<open>call_mods\<close>.
\<close>

theorem call_mods_path_validation:
  "(\<not> path_exists m (abspath m (model_path a)) \<or> \<not> path_exists m (abspath m (input_path a))
      \<longrightarrow> check_paths m a \<noteq> None
          \<and> (\<exists>e. call_mods m a = ([], Some e))
          \<and> (\<not> (use_cuda m \<and> set_start_method_raises m)
               \<longrightarrow> call_mods m a = ([], check_paths m a)))
   \<and> (path_exists m (abspath m (model_path a)) \<and> path_exists m (abspath m (input_path a))
      \<longrightarrow> check_paths m a = None
          \<and> (\<forall>msg. snd (call_mods m a) \<noteq> Some (ValueError msg)))"
proof (intro conjI impI)
  assume missing: "\<not> path_exists m (abspath m (model_path a))
                 \<or> \<not> path_exists m (abspath m (input_path a))"
  then show bad: "check_paths m a \<noteq> None"
    by (auto simp: check_paths_def)
  then obtain e where e: "check_paths m a = Some e" by auto
  then show "\<exists>e. call_mods m a = ([], Some e)"
    by (simp add: call_mods_def)
  show "call_mods m a = ([], check_paths m a)"
    if "\<not> (use_cuda m \<and> set_start_method_raises m)"
    using that e by (auto simp: call_mods_def)
next
  assume both: "path_exists m (abspath m (model_path a))
              \<and> path_exists m (abspath m (input_path a))"
  then show ok: "check_paths m a = None"
    by (simp add: check_paths_def)
  have gpu: "snd (call_mods_from_fast5s_gpu m a) \<noteq> Some (ValueError msg)" for msg
    using start_call_mods_error
      [of "get_gpus (device_count m)" 0 "nat (snd (gpu_pool_sizes (nproc a) (nproc_gpu a)))"]
    by (auto simp: call_mods_from_fast5s_gpu_def Let_def split: prod.splits option.splits)
  have cpu: "snd (call_mods_from_fast5s_cpu2 m a) \<noteq> Some (ValueError msg)" for msg
    by (simp add: call_mods_from_fast5s_cpu2_def Let_def)
  have fmode: "snd (call_mods_from_file m a) \<noteq> Some (ValueError msg)" for msg
    using start_call_mods_error
      [of "get_gpus (device_count m)" 0 "nat (file_mode_nproc_dp m a)"]
    by (auto simp: call_mods_from_file_def split: prod.splits option.splits)
  show "\<forall>msg. snd (call_mods m a) \<noteq> Some (ValueError msg)"
    using ok gpu cpu fmode by (simp add: call_mods_def)
qed

theorem call_mods_path_validation_witness:
  "call_mods
     \<lparr>use_cuda = False, device_count = 0, abspath = (\<lambda>p. p),
      path_exists = (\<lambda>p. p = ''features.tsv''), path_isdir = (\<lambda>p. False),
      set_start_method_raises = False, nproc_to_call_mods_in_cpu_mode = 2\<rparr>
     \<lparr>model_path = ''m.ckpt'', input_path = ''features.tsv'', nproc = 10, nproc_gpu = 2\<rparr>
   = ([], Some (ValueError ''--model_path is not set right!''))
   \<and> check_paths
     \<lparr>use_cuda = False, device_count = 0, abspath = (\<lambda>p. p),
      path_exists = (\<lambda>p. True), path_isdir = (\<lambda>p. False),
      set_start_method_raises = False, nproc_to_call_mods_in_cpu_mode = 2\<rparr>
     \<lparr>model_path = ''m.ckpt'', input_path = ''features.tsv'', nproc = 10, nproc_gpu = 2\<rparr>
   = None"
  using call_mods_path_validation
    [of "\<lparr>use_cuda = False, device_count = 0, abspath = (\<lambda>p. p),
      path_exists = (\<lambda>p. p = ''features.tsv''), path_isdir = (\<lambda>p. False),
      set_start_method_raises = False, nproc_to_call_mods_in_cpu_mode = 2\<rparr>"
     "\<lparr>model_path = ''m.ckpt'', input_path = ''features.tsv'', nproc = 10, nproc_gpu = 2\<rparr>"]
    call_mods_path_validation
    [of "\<lparr>use_cuda = False, device_count = 0, abspath = (\<lambda>p. p),
      path_exists = (\<lambda>p. True), path_isdir = (\<lambda>p. False),
      set_start_method_raises = False, nproc_to_call_mods_in_cpu_mode = 2\<rparr>"
     "\<lparr>model_path = ''m.ckpt'', input_path = ''features.tsv'', nproc = 10, nproc_gpu = 2\<rparr>"]
  by (simp add: check_paths_def)

section \<open>Scoring one feature batch\<close>

lemma py_slice_nonneg:
  assumes "0 \<le> a" and "0 \<le> b"
  shows "py_slice xs a b = take (nat b - nat a) (drop (nat a) xs)"
proof (cases "nat a \<le> length xs")
  case True
  with assms have lo: "min a (int (length xs)) = a" by simp
  show ?thesis
  proof (cases "nat b \<le> length xs")
    case True
    with assms have "min b (int (length xs)) = b" by simp
    with lo assms show ?thesis
      by (simp add: py_slice_def Let_def nat_diff_distrib')
  next
    case False
    with assms have hi: "min b (int (length xs)) = int (length xs)" by simp
    have "length (drop (nat a) xs) \<le> nat b - nat a"
      using False by simp
    then have "take (nat b - nat a) (drop (nat a) xs) = drop (nat a) xs"
      by (rule take_all)
    moreover have "take (nat (int (length xs) - a)) (drop (nat a) xs) = drop (nat a) xs"
      using assms by (intro take_all) (simp add: nat_diff_distrib')
    ultimately show ?thesis
      using lo hi assms by (simp add: py_slice_def Let_def)
  qed
next
  case False
  then have "drop (nat a) xs = []" by simp
  moreover from False assms have "drop (nat (min a (int (length xs)))) xs = []"
    by simp
  ultimately show ?thesis
    using assms by (simp add: py_slice_def Let_def)
qed

lemma kmer_window_eq_spec: "kmer_window seq = spec_window seq"
proof -
  define l where "l = int (length seq)"
  define c where "c = l div 2"
  have s: "(if c - 2 \<ge> 0 then c - 2 else 0) = max 0 (c - 2)" by (simp add: max_def)
  have e: "(if c + 3 \<le> l then c + 3 else l) = min l (c + 3)" by (simp add: min_def)
  show ?thesis
    unfolding kmer_window_def spec_window_def Let_def l_def [symmetric] c_def [symmetric] s e ..
qed

lemma spec_window_take_drop:
  "spec_window seq = take (min (length seq) (length seq div 2 + 3) - (length seq div 2 - 2))
                       (drop (length seq div 2 - 2) seq)"
proof -
  define l where "l = int (length seq)"
  define c where "c = l div 2"
  have c: "c = int (length seq div 2)" by (simp add: c_def l_def zdiv_int)
  have a: "nat (max 0 (c - 2)) = length seq div 2 - 2" unfolding c by simp
  have b: "nat (min l (c + 3)) = min (length seq) (length seq div 2 + 3)"
    unfolding c l_def by (simp add: min_def nat_add_distrib)
  have "spec_window seq = py_slice seq (max 0 (c - 2)) (min l (c + 3))"
    by (simp add: spec_window_def Let_def l_def c_def)
  also have "\<dots> = take (nat (min l (c + 3)) - nat (max 0 (c - 2))) (drop (nat (max 0 (c - 2))) seq)"
    by (rule py_slice_nonneg) (simp_all add: c l_def)
  finally show ?thesis unfolding a b .
qed

lemma pred_lines_Inr:
  "pred_lines f idxs acc = Inr acc' \<Longrightarrow> \<exists>ls. acc' = acc @ ls \<and> map f idxs = map Inr ls"
proof (induction idxs arbitrary: acc)
  case Nil
  then show ?case by simp
next
  case (Cons idx idxs)
  from Cons.prems obtain l where l: "f idx = Inr l"
    and rest: "pred_lines f idxs (acc @ [l]) = Inr acc'"
    by (auto split: sum.splits)
  from Cons.IH [OF rest] obtain ls where "acc' = (acc @ [l]) @ ls" "map f idxs = map Inr ls"
    by blast
  with l have "acc' = acc @ (l # ls) \<and> map f (idx # idxs) = map Inr (l # ls)" by simp
  then show ?case by blast
qed


lemma torch_max_dim1_Inr:
  "torch_max_dim1 rows = Inr is \<Longrightarrow> map torch_argmax rows = map Inr is"
  by (induction rows arbitrary: "is") (auto split: sum.splits)


lemma torch_argmax_pair: "torch_argmax [a, b] = Inr (if a \<ge> b then 0 else 1)"
  by (simp add: torch_argmax_def)













lemma pred_line_Inr:
  assumes "pred_line L b_sampleinfo b_kmers logits predicted idx = Inr line"
  shows "\<exists>b_idx_kmer. idx < length logits \<and> idx < length predicted \<and> idx < length b_kmers
           \<and> idx < length b_sampleinfo \<and> 1 < length (logits ! idx)
           \<and> decode_kmer L (b_kmers ! idx) = Inr b_idx_kmer
           \<and> line = str_join tab
               [b_sampleinfo ! idx,
                str_float L (fst (norm_probs L (logits ! idx ! 0) (logits ! idx ! 1))),
                str_float L (snd (norm_probs L (logits ! idx ! 0) (logits ! idx ! 1))),
                str_label L (predicted ! idx),
                kmer_window b_idx_kmer]"
  using assms unfolding pred_line_def py_index_def on_value_def
  by (auto split: if_splits sum.splits)




text \<open>
  C4. The trimmed context sequence of an output line is
  \<open>seq[max(0, c-2) : min(L, c+3)]\<close> with \<open>c = L div 2\<close>, for every length \<open>L\<close>:
  at most 5 characters, clipped and never padded; exactly the 5 characters from position
  3 when \<open>L = 11\<close>, and \<open>seq[0:3]\<close>, the whole sequence, when \<open>L = 3\<close>. Every
  line that \<open>pred_line\<close> makes ends with that window of the decoded k-mer.
\<close>

theorem kmer_window_trimming:
  "kmer_window seq = spec_window seq
   \<and> spec_window seq
       = take (min (length seq) (length seq div 2 + 3) - (length seq div 2 - 2))
           (drop (length seq div 2 - 2) seq)
   \<and> length (kmer_window seq) \<le> 5
   \<and> (length seq = 11 \<longrightarrow> kmer_window seq = take 5 (drop 3 seq) \<and> length (kmer_window seq) = 5)
   \<and> (length seq = 3 \<longrightarrow> kmer_window seq = py_slice seq 0 3 \<and> kmer_window seq = seq)
   \<and> (\<forall>line. pred_line L b_sampleinfo b_kmers logits predicted idx = Inr line \<longrightarrow>
         (\<exists>info p0 p1 called b_idx_kmer.
            decode_kmer L (b_kmers ! idx) = Inr b_idx_kmer
          \<and> line = str_join tab [info, p0, p1, called, spec_window b_idx_kmer]))"
proof -
  have eq: "kmer_window s = spec_window s" for s
    by (rule kmer_window_eq_spec)
  have td: "spec_window seq
       = take (min (length seq) (length seq div 2 + 3) - (length seq div 2 - 2))
           (drop (length seq div 2 - 2) seq)"
    by (rule spec_window_take_drop)
  have le5: "length (kmer_window seq) \<le> 5"
    unfolding eq td by simp
  have l11: "kmer_window seq = take 5 (drop 3 seq) \<and> length (kmer_window seq) = 5"
    if "length seq = 11"
    unfolding eq td using that by simp
  have l3: "kmer_window seq = py_slice seq 0 3 \<and> kmer_window seq = seq"
    if "length seq = 3"
  proof -
    have "py_slice seq 0 3 = take (nat 3 - nat 0) (drop (nat 0) seq)"
      by (rule py_slice_nonneg) simp_all
    then have "py_slice seq 0 3 = seq" using that by simp
    moreover have "kmer_window seq = seq"
      unfolding eq td using that by simp
    ultimately show ?thesis by simp
  qed
  have rec: "\<exists>info p0 p1 called b_idx_kmer.
            decode_kmer L (b_kmers ! idx) = Inr b_idx_kmer
          \<and> line = str_join tab [info, p0, p1, called, spec_window b_idx_kmer]"
    if "pred_line L b_sampleinfo b_kmers logits predicted idx = Inr line" for line
    using pred_line_Inr [OF that] unfolding eq by blast
  from eq td le5 l11 l3 rec show ?thesis by blast
qed

theorem kmer_window_trimming_witness:
  "kmer_window ''ACGTACGTACG'' = ''TACGT''
   \<and> spec_window ''ACGTACGTACG'' = ''TACGT''
   \<and> kmer_window ''ACG'' = ''ACG''
   \<and> pred_line example_library [''r2''] [[1, 1, 1, 0, 0, 0, 3]] [[3/4, 1/4]] [0] 0
       = Inr (str_join tab [''r2'', ''0.75'', ''0.25'', ''0'', spec_window ''CCCAAAT''])"
proof -
  have a: "length ''ACGTACGTACG'' = 11" by simp
  have b: "length ''ACG'' = 3" by simp
  have c: "pred_line example_library [''r2''] [[1, 1, 1, 0, 0, 0, 3]] [[3/4, 1/4]] [0] 0
       = Inr (str_join tab [''r2'', ''0.75'', ''0.25'', ''0'', kmer_window ''CCCAAAT''])"
    by code_simp
  from kmer_window_trimming [of "''ACGTACGTACG''"] a
  have "kmer_window ''ACGTACGTACG'' = take 5 (drop 3 ''ACGTACGTACG'')"
    and "spec_window ''ACGTACGTACG'' = kmer_window ''ACGTACGTACG''"
    by simp_all
  moreover from kmer_window_trimming [of "''ACG''"] b
  have "kmer_window ''ACG'' = ''ACG''" by simp
  moreover from kmer_window_trimming [of "''CCCAAAT''"]
  have "kmer_window ''CCCAAAT'' = spec_window ''CCCAAAT''" by simp
  ultimately show ?thesis using c by simp
qed

text \<open>
  C8. In the line of a record whose row of classifier outputs is \<open>(a, b)\<close>, the
  predicted label is the index of the maximum: 0 when \<open>a \<ge> b\<close>, 1 when \<open>b > a\<close>;
  the probabilities of that line are computed from the same \<open>a\<close> and \<open>b\<close>.
\<close>

theorem predicted_label_is_argmax:
  assumes run: "call_mods_step L fb batch_size i (pred_str, accuracys, batch_num)
                  = Inr (pred_str', accuracys', batch_num')"
    and idx: "idx < length (py_slice (sampleinfo fb) i (i + batch_size))"
    and answer: "model L (py_slice (kmers fb) i (i + batch_size))
                (py_slice (base_means fb) i (i + batch_size))
                (py_slice (base_stds fb) i (i + batch_size))
                (py_slice (base_signal_lens fb) i (i + batch_size))
                (py_slice (k_signals fb) i (i + batch_size)) = Inr logits"
    and row: "logits ! idx = [a, b]"
  shows "torch_argmax [a, b] = Inr (if a \<ge> b then 0 else 1)
       \<and> (\<exists>info window. pred_str' ! (length pred_str + idx)
             = str_join tab
                 [info,
                  str_float L (fst (norm_probs L a b)),
                  str_float L (snd (norm_probs L a b)),
                  str_label L (if a \<ge> b then 0 else 1),
                  window])"
proof -
  define b_si where "b_si = py_slice (sampleinfo fb) i (i + batch_size)"
  define b_km where "b_km = py_slice (kmers fb) i (i + batch_size)"
  have lg: "model L b_km
                (py_slice (base_means fb) i (i + batch_size))
                (py_slice (base_stds fb) i (i + batch_size))
                (py_slice (base_signal_lens fb) i (i + batch_size))
                (py_slice (k_signals fb) i (i + batch_size)) = Inr logits"
    using answer by (simp only: b_km_def)
  have idx': "idx < length b_si" using idx by (simp only: b_si_def)
  then have pos: "0 < length b_si" by (rule le_less_trans [OF le0])
  from run obtain predicted where
    tm: "torch_max_dim1 logits = Inr predicted"
    and pl: "pred_lines (pred_line L b_si b_km logits predicted) [0..<length b_si] pred_str
               = Inr pred_str'"
    unfolding call_mods_step_def Let_def b_si_def [symmetric] b_km_def [symmetric] lg
    using pos by (auto split: sum.splits)
  from pred_lines_Inr [OF pl] obtain ls where
    ls: "pred_str' = pred_str @ ls"
    and m: "map (pred_line L b_si b_km logits predicted) [0..<length b_si] = map Inr ls"
    by blast
  from m have len: "length ls = length b_si"
    by (metis length_map length_upt minus_nat.diff_0)
  from m have "map (pred_line L b_si b_km logits predicted) [0..<length b_si] ! idx
                 = map Inr ls ! idx"
    by simp
  then have line: "pred_line L b_si b_km logits predicted idx = Inr (ls ! idx)"
    using idx' len by simp
  from pred_line_Inr [OF line] obtain w where
    il: "idx < length logits" and
    eq: "ls ! idx = str_join tab
               [b_si ! idx,
                str_float L (fst (norm_probs L (logits ! idx ! 0) (logits ! idx ! 1))),
                str_float L (snd (norm_probs L (logits ! idx ! 0) (logits ! idx ! 1))),
                str_label L (predicted ! idx),
                kmer_window w]"
    by blast
  have r: "logits ! idx = [a, b]"
    by (rule row)
  have am: "torch_argmax [a, b] = Inr (if a \<ge> b then 0 else 1)"
    by (rule torch_argmax_pair)
  from torch_max_dim1_Inr [OF tm]
  have "map torch_argmax logits ! idx = map Inr predicted ! idx" by simp
  moreover have "length predicted = length logits"
    using torch_max_dim1_Inr [OF tm] by (metis length_map)
  ultimately have "torch_argmax (logits ! idx) = Inr (predicted ! idx)"
    using il by simp
  then have called: "predicted ! idx = (if a \<ge> b then 0 else 1)"
    unfolding r am by simp
  have "pred_str' ! (length pred_str + idx) = ls ! idx"
    unfolding ls by simp
  then have "pred_str' ! (length pred_str + idx)
             = str_join tab
                 [b_si ! idx,
                  str_float L (fst (norm_probs L a b)),
                  str_float L (snd (norm_probs L a b)),
                  str_label L (if a \<ge> b then 0 else 1),
                  kmer_window w]"
    unfolding eq r called by simp
  with am show ?thesis by blast
qed

theorem predicted_label_is_argmax_witness:
  "call_mods_step example_library example_batch 2 0 ([], [], 0)
     = Inr ([''r1'' @ tab @ ''0.25'' @ tab @ ''0.75'' @ tab @ ''1'' @ tab @ ''CGTAC'',
             ''r2'' @ tab @ ''0.75'' @ tab @ ''0.25'' @ tab @ ''0'' @ tab @ ''CCAAA''], [1], 1)
   \<and> torch_argmax [1/4, 3/4] = Inr 1
   \<and> torch_argmax [3/4, 1/4] = Inr 0
   \<and> torch_argmax [1/2, 1/2] = Inr 0"
proof -
  have run: "call_mods_step example_library example_batch 2 0 ([], [], 0)
     = Inr ([''r1'' @ tab @ ''0.25'' @ tab @ ''0.75'' @ tab @ ''1'' @ tab @ ''CGTAC'',
             ''r2'' @ tab @ ''0.75'' @ tab @ ''0.25'' @ tab @ ''0'' @ tab @ ''CCAAA''], [1], 1)"
    by code_simp
  have idx: "0 < length (py_slice (sampleinfo example_batch) 0 (0 + 2))"
    by code_simp
  have answer: "model example_library (py_slice (kmers example_batch) 0 (0 + 2))
                (py_slice (base_means example_batch) 0 (0 + 2))
                (py_slice (base_stds example_batch) 0 (0 + 2))
                (py_slice (base_signal_lens example_batch) 0 (0 + 2))
                (py_slice (k_signals example_batch) 0 (0 + 2)) = Inr [[1/4, 3/4], [3/4, 1/4]]"
    by code_simp
  have row: "[[1/4, 3/4], [3/4, 1/4::real]] ! 0 = [1/4, 3/4]"
    by simp
  have idx1: "1 < length (py_slice (sampleinfo example_batch) 0 (0 + 2))"
    by code_simp
  have row1: "[[1/4, 3/4], [3/4, 1/4::real]] ! 1 = [3/4, 1/4]"
    by simp
  from predicted_label_is_argmax [OF run idx answer row]
  have a: "torch_argmax [1/4, 3/4] = Inr 1" by simp
  from predicted_label_is_argmax [OF run idx1 answer row1]
  have b: "torch_argmax [3/4, 1/4] = Inr 0" by simp
  have c: "torch_argmax [1/2, 1/2::real] = Inr 0"
    by (simp add: torch_argmax_def)
  from run a b c show ?thesis by (intro conjI)
qed

section \<open>Reading a feature file\<close>

lemma runs_nonempty: "xs \<noteq> [] \<Longrightarrow> runs k xs \<noteq> []"
  by (induction k xs rule: runs.induct) (auto split: list.splits)

lemma concat_runs: "concat (runs k xs) = xs"
  by (induction k xs rule: runs.induct) (auto split: list.splits)

lemma runs_snoc_same:
  "xs \<noteq> [] \<Longrightarrow> k x = k (last xs) \<Longrightarrow> length (runs k (xs @ [x])) = length (runs k xs)"
proof (induction xs rule: list_nonempty_induct)
  case (single y)
  then show ?case by simp
next
  case (cons y ys)
  then obtain z zs where ys: "ys = z # zs" by (cases ys) auto
  from cons have IH: "length (runs k (ys @ [x])) = length (runs k ys)" by simp
  have ne: "runs k ys \<noteq> []" "runs k (ys @ [x]) \<noteq> []"
    using cons.hyps by (simp_all add: runs_nonempty)
  show ?case
    using IH ne unfolding ys by (auto split: list.splits)
qed

lemma runs_append_new:
  assumes "ys \<noteq> []"
  shows "xs \<noteq> [] \<Longrightarrow> k (last xs) \<noteq> k (hd ys) \<Longrightarrow> runs k (xs @ ys) = runs k xs @ runs k ys"
proof (induction xs rule: list_nonempty_induct)
  case (single x)
  then show ?case using assms by (cases ys) simp_all
next
  case (cons x xs)
  then obtain z zs where xs: "xs = z # zs" by (cases xs) auto
  from cons have IH: "runs k (xs @ ys) = runs k xs @ runs k ys" by simp
  have ne: "runs k xs \<noteq> []"
    using cons.hyps by (simp add: runs_nonempty)
  show ?case
    using IH ne unfolding xs by (auto split: list.splits)
qed

lemma chunks_small:
  "0 < n \<Longrightarrow> xs \<noteq> [] \<Longrightarrow> length xs \<le> n \<Longrightarrow> chunks n xs = [xs]"
  by (simp add: chunks.simps [of n xs] chunks.simps [of n "[]"])

lemma chunks_append:
  assumes "0 < n" and "length xs = n"
  shows "chunks n (xs @ ys) = xs # chunks n ys"
proof -
  have "xs @ ys \<noteq> []" using assms by auto
  then have "chunks n (xs @ ys) = take n (xs @ ys) # chunks n (drop n (xs @ ys))"
    using assms(1) by (subst chunks.simps) simp
  then show ?thesis using assms(2) by simp
qed

lemma batch_of_snoc: "append_sample s (batch_of ss) = batch_of (ss @ [s])"
  by (simp add: append_sample_def batch_of_def)

lemma batch_of_Nil: "batch_of [] = empty_batch"
  by (simp add: batch_of_def empty_batch_def)

lemma mod_step:
  fixes r f :: int
  assumes "0 < f"
  shows "(r + 1) mod f = 0 \<Longrightarrow> r mod f + 1 = f"
    and "(r + 1) mod f \<noteq> 0 \<Longrightarrow> (r + 1) mod f = r mod f + 1"
proof -
  have b: "0 \<le> r mod f" "r mod f < f" using assms by simp_all
  have e: "(r + 1) mod f = (r mod f + 1) mod f" by (simp add: mod_add_left_eq)
  show "r mod f + 1 = f" if "(r + 1) mod f = 0"
  proof (rule ccontr)
    assume "r mod f + 1 \<noteq> f"
    with b have "r mod f + 1 < f" by simp
    then have "(r mod f + 1) mod f = r mod f + 1" using b by (simp add: mod_pos_pos_trivial)
    with e that b show False by simp
  qed
  show "(r + 1) mod f = r mod f + 1" if "(r + 1) mod f \<noteq> 0"
  proof (cases "r mod f + 1 < f")
    case True
    then have "(r mod f + 1) mod f = r mod f + 1" using b by (simp add: mod_pos_pos_trivial)
    with e show ?thesis by simp
  next
    case False
    with b have "r mod f + 1 = f" by simp
    with e that show ?thesis by simp
  qed
qed

lemma line_ok_index:
  "line_ok P line \<Longrightarrow> py_index (line_words line) 4 = Inr (readid_of line)"
  by (simp add: line_ok_def py_index_def readid_of_def)

lemma line_ok_parse:
  "line_ok P line \<Longrightarrow> parse_features P (line_words line) = Inr (sample_of P line)"
  by (cases "parse_features P (line_words line)") (simp_all add: line_ok_def sample_of_def)

lemma flushed_last:
  assumes "0 < n" and "cur \<noteq> []" and "length (runs readid_of cur) \<le> n"
  shows "flushed_batches P n cur = [Features (batch_of (map (sample_of P) cur))]"
proof -
  have "runs readid_of cur \<noteq> []" using assms(2) by (rule runs_nonempty)
  then have "chunks n (runs readid_of cur) = [runs readid_of cur]"
    using assms(1,3) by (intro chunks_small)
  then show ?thesis
    by (simp add: flushed_batches_def concat_runs)
qed

lemma flushed_full:
  assumes "0 < n" and "cur \<noteq> []" and "length (runs readid_of cur) = n"
    and "readid_of (last cur) \<noteq> readid_of line"
  shows "flushed_batches P n (cur @ line # rest)
           = Features (batch_of (map (sample_of P) cur)) # flushed_batches P n (line # rest)"
proof -
  have "runs readid_of (cur @ line # rest) = runs readid_of cur @ runs readid_of (line # rest)"
    using assms(2,4) by (intro runs_append_new) simp_all
  then have "chunks n (runs readid_of (cur @ line # rest))
               = runs readid_of cur # chunks n (runs readid_of (line # rest))"
    using assms(1,3) by (simp add: chunks_append)
  then show ?thesis
    by (simp add: flushed_batches_def concat_runs)
qed

lemma read_loop_flush:
  assumes F: "0 < F"
  shows "list_all (line_ok P) rest \<Longrightarrow> cur \<noteq> []
     \<Longrightarrow> pending st = batch_of (map (sample_of P) cur)
     \<Longrightarrow> readid_pre st = readid_of (last cur)
     \<Longrightarrow> int (length (runs readid_of cur)) = r_num st mod F + 1
     \<Longrightarrow> \<exists>st'. read_loop P F rest st = (st', None) \<and> sampleinfo (pending st') \<noteq> []
            \<and> features_batch_q st' @ [Features (pending st')]
                = features_batch_q st @ flushed_batches P (nat F) (cur @ rest)"
proof (induction rest arbitrary: st cur)
  case Nil
  have "r_num st mod F < F" using F by simp
  with Nil.prems(5) have "length (runs readid_of cur) \<le> nat F" by simp
  then have "flushed_batches P (nat F) cur = [Features (batch_of (map (sample_of P) cur))]"
    using F Nil.prems(2) by (intro flushed_last) simp_all
  moreover have "sampleinfo (pending st) \<noteq> []"
    using Nil.prems(2,3) by (simp add: batch_of_def)
  ultimately show ?case
    using Nil.prems(3) by simp
next
  case (Cons line rest)
  from Cons.prems(1) have ok: "line_ok P line" and oks: "list_all (line_ok P) rest"
    by simp_all
  note ix = line_ok_index [OF ok] and pf = line_ok_parse [OF ok]
  have F0: "F \<noteq> 0" using F by simp
  show ?case
  proof (cases "readid_of line = readid_pre st")
    case True
    define st2 where "st2 = st\<lparr>pending := append_sample (sample_of P line) (pending st)\<rparr>"
    have step: "read_loop P F (line # rest) st = read_loop P F rest st2"
      using True by (simp add: ix pf new_read_def st2_def)
    have "\<exists>st'. read_loop P F rest st2 = (st', None) \<and> sampleinfo (pending st') \<noteq> []
            \<and> features_batch_q st' @ [Features (pending st')]
                = features_batch_q st2 @ flushed_batches P (nat F) ((cur @ [line]) @ rest)"
    proof (rule Cons.IH [OF oks])
      show "cur @ [line] \<noteq> []" by simp
      show "pending st2 = batch_of (map (sample_of P) (cur @ [line]))"
        using Cons.prems(3) by (simp add: st2_def batch_of_snoc)
      show "readid_pre st2 = readid_of (last (cur @ [line]))"
        using True by (simp add: st2_def)
      have "length (runs readid_of (cur @ [line])) = length (runs readid_of cur)"
        using Cons.prems(2,4) True by (intro runs_snoc_same) simp_all
      then show "int (length (runs readid_of (cur @ [line]))) = r_num st2 mod F + 1"
        using Cons.prems(5) by (simp add: st2_def)
    qed
    then show ?thesis
      unfolding step by (simp add: st2_def)
  next
    case False
    then have neq: "readid_of (last cur) \<noteq> readid_of line"
      using Cons.prems(4) by simp
    show ?thesis
    proof (cases "(r_num st + 1) mod F = 0")
      case nz: False
      define st2 where "st2 = st\<lparr>r_num := r_num st + 1, readid_pre := readid_of line,
                                  pending := append_sample (sample_of P line) (pending st)\<rparr>"
      have step: "read_loop P F (line # rest) st = read_loop P F rest st2"
        using False nz F0 by (simp add: ix pf new_read_def st2_def Let_def)
      have "\<exists>st'. read_loop P F rest st2 = (st', None) \<and> sampleinfo (pending st') \<noteq> []
            \<and> features_batch_q st' @ [Features (pending st')]
                = features_batch_q st2 @ flushed_batches P (nat F) ((cur @ [line]) @ rest)"
      proof (rule Cons.IH [OF oks])
        show "cur @ [line] \<noteq> []" by simp
        show "pending st2 = batch_of (map (sample_of P) (cur @ [line]))"
          using Cons.prems(3) by (simp add: st2_def batch_of_snoc)
        show "readid_pre st2 = readid_of (last (cur @ [line]))"
          by (simp add: st2_def)
        have "runs readid_of (cur @ [line]) = runs readid_of cur @ runs readid_of [line]"
          using Cons.prems(2) neq by (intro runs_append_new) simp_all
        then have "int (length (runs readid_of (cur @ [line]))) = r_num st mod F + 1 + 1"
          using Cons.prems(5) by simp
        also have "\<dots> = (r_num st + 1) mod F + 1"
          using mod_step(2) [OF F nz] by simp
        finally show "int (length (runs readid_of (cur @ [line]))) = r_num st2 mod F + 1"
          by (simp add: st2_def)
      qed
      then show ?thesis
        unfolding step by (simp add: st2_def)
    next
      case z: True
      define st2 where "st2 = st\<lparr>r_num := r_num st + 1, readid_pre := readid_of line,
            features_batch_q := features_batch_q st @ [Features (pending st)],
            b_num := b_num st + 1,
            pending := append_sample (sample_of P line) empty_batch\<rparr>"
      have step: "read_loop P F (line # rest) st = read_loop P F rest st2"
        using False z F0 by (simp add: ix pf new_read_def st2_def Let_def)
      have full: "length (runs readid_of cur) = nat F"
        using mod_step(1) [OF F z] Cons.prems(5) by simp
      have "\<exists>st'. read_loop P F rest st2 = (st', None) \<and> sampleinfo (pending st') \<noteq> []
            \<and> features_batch_q st' @ [Features (pending st')]
                = features_batch_q st2 @ flushed_batches P (nat F) ([line] @ rest)"
      proof (rule Cons.IH [OF oks])
        show "[line] \<noteq> []" by simp
        show "pending st2 = batch_of (map (sample_of P) [line])"
          using batch_of_snoc [of "sample_of P line" "[]"]
          by (simp add: st2_def batch_of_Nil)
        show "readid_pre st2 = readid_of (last [line])"
          by (simp add: st2_def)
        show "int (length (runs readid_of [line])) = r_num st2 mod F + 1"
          using z by (simp add: st2_def)
      qed
      moreover have "flushed_batches P (nat F) (cur @ line # rest)
           = Features (batch_of (map (sample_of P) cur)) # flushed_batches P (nat F) (line # rest)"
        using F Cons.prems(2) full neq by (intro flushed_full) simp_all
      ultimately show ?thesis
        unfolding step using Cons.prems(3) by (simp add: st2_def)
    qed
  qed
qed

lemma read_features_file_flush:
  assumes F: "0 < F" and ne: "infile \<noteq> []" and ok: "list_all (line_ok P) infile"
  shows "read_features_file P infile F = (flushed_batches P (nat F) infile @ [Kill], None)"
proof -
  from ne obtain line rest where inf: "infile = line # rest" by (cases infile) auto
  with ok have l: "line_ok P line" and r: "list_all (line_ok P) rest" by simp_all
  define st0 where "st0 = \<lparr>r_num = 0, b_num = 0, readid_pre = readid_of line,
       pending = append_sample (sample_of P line) empty_batch, features_batch_q = []\<rparr>"
  have "\<exists>st'. read_loop P F rest st0 = (st', None) \<and> sampleinfo (pending st') \<noteq> []
            \<and> features_batch_q st' @ [Features (pending st')]
                = features_batch_q st0 @ flushed_batches P (nat F) ([line] @ rest)"
  proof (rule read_loop_flush [OF F r])
    show "[line] \<noteq> []" by simp
    show "pending st0 = batch_of (map (sample_of P) [line])"
      using batch_of_snoc [of "sample_of P line" "[]"]
      by (simp add: st0_def batch_of_Nil)
    show "readid_pre st0 = readid_of (last [line])" by (simp add: st0_def)
    show "int (length (runs readid_of [line])) = r_num st0 mod F + 1"
      by (simp add: st0_def)
  qed
  then obtain st' where loop: "read_loop P F rest st0 = (st', None)"
    and nonempty: "sampleinfo (pending st') \<noteq> []"
    and q: "features_batch_q st' @ [Features (pending st')] = flushed_batches P (nat F) infile"
    by (auto simp: inf st0_def)
  show ?thesis
    unfolding read_features_file_def inf
    using loop nonempty q
    by (simp add: line_ok_index [OF l] line_ok_parse [OF l] st0_def [symmetric] Let_def inf)
qed

lemma concat_chunks: "0 < n \<Longrightarrow> concat (chunks n xs) = xs"
proof (induction n xs rule: chunks.induct)
  case (1 n xs)
  show ?case
  proof (cases "xs = []")
    case True
    then show ?thesis by (simp add: chunks.simps [of n "[]"])
  next
    case False
    with "1.prems" have "chunks n xs = take n xs # chunks n (drop n xs)"
      by (subst chunks.simps) simp
    moreover have "concat (chunks n (drop n xs)) = drop n xs"
      using "1.IH" "1.prems" False by simp
    ultimately show ?thesis by simp
  qed
qed

lemma chunks_sizes:
  "0 < n \<Longrightarrow> list_all (\<lambda>c. c \<noteq> [] \<and> length c \<le> n) (chunks n xs)
              \<and> list_all (\<lambda>c. length c = n) (butlast (chunks n xs))"
proof (induction n xs rule: chunks.induct)
  case (1 n xs)
  show ?case
  proof (cases "xs = []")
    case True
    then show ?thesis by (simp add: chunks.simps [of n "[]"])
  next
    case False
    with "1.prems" have c: "chunks n xs = take n xs # chunks n (drop n xs)"
      by (subst chunks.simps) simp
    have IH: "list_all (\<lambda>c. c \<noteq> [] \<and> length c \<le> n) (chunks n (drop n xs))
              \<and> list_all (\<lambda>c. length c = n) (butlast (chunks n (drop n xs)))"
      using "1.IH" "1.prems" False by simp
    have full: "length (take n xs) = n" if "chunks n (drop n xs) \<noteq> []"
    proof -
      from that have "drop n xs \<noteq> []"
        by (auto simp: chunks.simps [of n "[]"])
      then show ?thesis by simp
    qed
    show ?thesis
      unfolding c using IH False "1.prems" full by auto
  qed
qed

lemma hd_hd_runs: "xs \<noteq> [] \<Longrightarrow> hd (hd (runs k xs)) = hd xs"
proof (induction xs rule: list_nonempty_induct)
  case (single x)
  show ?case by simp
next
  case (cons x xs)
  then obtain z zs where xs: "xs = z # zs" by (cases xs) auto
  have ne: "runs k xs \<noteq> []" using cons.hyps by (rule runs_nonempty)
  show ?case using ne unfolding xs by (auto split: list.splits)
qed

lemma runs_blocks:
  "list_all (\<lambda>r. r \<noteq> [] \<and> list_all (\<lambda>x. k x = k (hd r)) r) (runs k xs)
   \<and> distinct_adj (map (\<lambda>r. k (hd r)) (runs k xs))"
proof (cases "xs = []")
  case True
  then show ?thesis by simp
next
  case False
  then show ?thesis
  proof (induction xs rule: list_nonempty_induct)
    case (single x)
    show ?case by simp
  next
    case (cons x xs)
    then obtain z zs where xs: "xs = z # zs" by (cases xs) auto
    obtain r rs where rr: "runs k (z # zs) = r # rs"
      using runs_nonempty [of "z # zs" k] by (cases "runs k (z # zs)") auto
    have hr: "hd r = z"
      using hd_hd_runs [of "z # zs" k] rr by simp
    from cons.IH have IH: "r \<noteq> []" "list_all (\<lambda>x. k x = k (hd r)) r"
      "list_all (\<lambda>r. r \<noteq> [] \<and> list_all (\<lambda>x. k x = k (hd r)) r) rs"
      "distinct_adj (map (\<lambda>r. k (hd r)) (r # rs))"
      unfolding xs rr by simp_all
    show ?case
    proof (cases "k x = k z")
      case True
      have "distinct_adj (map (\<lambda>r. k (hd r)) ((x # r) # rs))"
        using IH(4) True hr by (cases rs) simp_all
      then show ?thesis
        unfolding xs using True rr IH hr by simp
    next
      case False
      then show ?thesis
        unfolding xs using rr IH hr by simp
    qed
  qed
qed

text \<open>
  C3. In pre-extracted-file mode with transfer-batch size \<open>F \<ge> 1\<close>, on a file that
  is not empty and whose lines all parse, \<open>_read_features_file\<close> puts on the queue
  one feature batch for every \<open>F\<close> completed read-id runs, holding the records of
  exactly those runs in file order (the lists start anew after each flush), then one
  batch for the runs that remain at the end of the file (at least one, at most \<open>F\<close>),
  and then the sentinel, once and last. The runs are the maximal blocks of neighbouring
  lines with one read id, and the batches cut the file without loss or repetition.
\<close>

theorem read_features_file_flush_law:
  assumes "1 \<le> f5_batch_size" and "infile \<noteq> []" and "list_all (line_ok P) infile"
  shows "read_features_file P infile f5_batch_size
           = (flushed_batches P (nat f5_batch_size) infile @ [Kill], None)
       \<and> concat (runs readid_of infile) = infile
       \<and> list_all (\<lambda>r. r \<noteq> [] \<and> list_all (\<lambda>x. readid_of x = readid_of (hd r)) r)
            (runs readid_of infile)
       \<and> distinct_adj (map (\<lambda>r. readid_of (hd r)) (runs readid_of infile))
       \<and> concat (chunks (nat f5_batch_size) (runs readid_of infile)) = runs readid_of infile
       \<and> list_all (\<lambda>c. length c = nat f5_batch_size)
            (butlast (chunks (nat f5_batch_size) (runs readid_of infile)))
       \<and> list_all (\<lambda>c. c \<noteq> [] \<and> length c \<le> nat f5_batch_size)
            (chunks (nat f5_batch_size) (runs readid_of infile))"
proof -
  have F: "0 < f5_batch_size" and n: "0 < nat f5_batch_size"
    using assms(1) by simp_all
  have "read_features_file P infile f5_batch_size
           = (flushed_batches P (nat f5_batch_size) infile @ [Kill], None)"
    using F assms(2,3) by (rule read_features_file_flush)
  moreover have "concat (runs readid_of infile) = infile"
    by (rule concat_runs)
  moreover note runs_blocks [of readid_of infile]
  moreover have "concat (chunks (nat f5_batch_size) (runs readid_of infile))
                   = runs readid_of infile"
    using n by (rule concat_chunks)
  moreover note chunks_sizes [OF n, of "runs readid_of infile"]
  ultimately show ?thesis by simp
qed

theorem read_features_file_flush_law_witness:
  "(1::int) \<le> 2 \<and> example_file \<noteq> [] \<and> list_all (line_ok example_conversions) example_file
   \<and> read_features_file example_conversions example_file 2
       = ([Features (batch_of (map (sample_of example_conversions) (take 3 example_file))),
           Features (batch_of (map (sample_of example_conversions) (drop 3 example_file))),
           Kill], None)"
proof -
  have a: "(1::int) \<le> 2" by simp
  have b: "example_file \<noteq> []" by (simp add: example_file_def)
  have c: "list_all (line_ok example_conversions) example_file" by code_simp
  have d: "flushed_batches example_conversions (nat 2) example_file
       = [Features (batch_of (map (sample_of example_conversions) (take 3 example_file))),
          Features (batch_of (map (sample_of example_conversions) (drop 3 example_file)))]"
    by code_simp
  from read_features_file_flush_law [OF a b c]
  have "read_features_file example_conversions example_file 2
          = (flushed_batches example_conversions (nat 2) example_file @ [Kill], None)"
    by simp
  then have "read_features_file example_conversions example_file 2
       = ([Features (batch_of (map (sample_of example_conversions) (take 3 example_file))),
           Features (batch_of (map (sample_of example_conversions) (drop 3 example_file))),
           Kill], None)"
    unfolding d by simp
  with a b c show ?thesis by (intro conjI)
qed

text \<open>
  C10. On a feature file with no line, \<open>_read_features_file\<close> ends with the
  \<open>StopIteration\<close> of its first \<open>next(infile)\<close>; it has put nothing on the queue by
  then, no feature batch and no sentinel.
\<close>

theorem read_features_file_empty:
  "read_features_file P [] f5_batch_size = ([], Some StopIteration)
   \<and> Kill \<notin> set (fst (read_features_file P [] f5_batch_size))"
  by (simp add: read_features_file_def)

section \<open>The sentinel among the workers of a pool\<close>

lemma count_list_update:
  "i < length xs \<Longrightarrow>
     count_list (xs[i := y]) a + (if xs ! i = a then 1 else 0)
       = count_list xs a + (if y = a then 1 else 0)"
proof (induction xs arbitrary: i)
  case Nil
  then show ?case by simp
next
  case (Cons x xs)
  show ?case
  proof (cases i)
    case 0
    then show ?thesis by simp
  next
    case (Suc j)
    with Cons.prems have "j < length xs" by simp
    from Cons.IH [OF this] show ?thesis using Suc by (auto split: if_splits)
  qed
qed

lemma sum_weight_update:
  "i < length xs \<Longrightarrow>
     sum_list (map pc_weight (xs[i := y])) + pc_weight (xs ! i) = sum_list (map pc_weight xs) + pc_weight y"
proof (induction xs arbitrary: i)
  case Nil
  then show ?case by simp
next
  case (Cons x xs)
  then show ?case by (cases i) auto
qed

lemma consumer_step_cases:
  assumes "consumer_step i s = Some s'"
  obtains
    (get_item) a rest where "i < length (pcs s)" "pcs s ! i = Waiting" "shared_q s = Item a # rest"
      "s' = s\<lparr>shared_q := rest, pcs := (pcs s)[i := Working a]\<rparr>"
  | (get_sentinel) rest where "i < length (pcs s)" "pcs s ! i = Waiting"
      "shared_q s = Sentinel # rest"
      "s' = s\<lparr>shared_q := rest, pcs := (pcs s)[i := Holding_sentinel]\<rparr>"
  | (finish) a where "i < length (pcs s)" "pcs s ! i = Working a"
      "s' = s\<lparr>processed := processed s @ [a], pcs := (pcs s)[i := Waiting]\<rparr>"
  | (repost) "i < length (pcs s)" "pcs s ! i = Holding_sentinel"
      "s' = s\<lparr>shared_q := shared_q s @ [Sentinel],
              reposts := (reposts s)[i := reposts s ! i + 1],
              pcs := (pcs s)[i := Exited]\<rparr>"
  using assms unfolding consumer_step_def
  by (auto split: if_splits pc.splits list.splits queued.splits)

lemma step_steps_left:
  assumes "consumer_step i s = Some s'"
  shows "Suc (steps_left s') = steps_left s"
  using assms
proof (cases rule: consumer_step_cases)
  case (get_item a rest)
  with sum_weight_update [of i "pcs s" "Working a"] show ?thesis
    by (simp add: steps_left_def)
next
  case (get_sentinel rest)
  with sum_weight_update [of i "pcs s" Holding_sentinel] show ?thesis
    by (simp add: steps_left_def)
next
  case (finish a)
  with sum_weight_update [of i "pcs s" Waiting] show ?thesis
    by (simp add: steps_left_def)
next
  case repost
  with sum_weight_update [of i "pcs s" Exited] show ?thesis
    by (simp add: steps_left_def)
qed

lemma step_sentinels:
  assumes "consumer_step i s = Some s'"
  shows "sentinels s' = sentinels s"
  using assms
proof (cases rule: consumer_step_cases)
  case (get_item a rest)
  with count_list_update [of i "pcs s" "Working a" Holding_sentinel] show ?thesis
    by (simp add: sentinels_def)
next
  case (get_sentinel rest)
  with count_list_update [of i "pcs s" Holding_sentinel Holding_sentinel] show ?thesis
    by (simp add: sentinels_def)
next
  case (finish a)
  with count_list_update [of i "pcs s" Waiting Holding_sentinel] show ?thesis
    by (simp add: sentinels_def)
next
  case repost
  with count_list_update [of i "pcs s" Exited Holding_sentinel] show ?thesis
    by (simp add: sentinels_def)
qed

lemma step_inv:
  assumes "consumer_step i s = Some s'" and "pool_inv k s"
  shows "pool_inv k s'"
proof -
  have sen: "sentinels s' = 1"
    using step_sentinels [OF assms(1)] assms(2) by (simp add: pool_inv_def)
  from assms(1) show ?thesis
  proof (cases rule: consumer_step_cases)
    case (get_item a rest)
    with assms(2) sen show ?thesis
      by (auto simp: pool_inv_def nth_list_update)
  next
    case (get_sentinel rest)
    with assms(2) sen show ?thesis
      by (auto simp: pool_inv_def nth_list_update)
  next
    case (finish a)
    with assms(2) sen show ?thesis
      by (auto simp: pool_inv_def nth_list_update)
  next
    case repost
    with assms(2) sen show ?thesis
      by (auto simp: pool_inv_def nth_list_update)
  qed
qed

lemma start_pool_inv:
  assumes "count_list q Sentinel = 1" and "list_all in_loop ps"
  shows "pool_inv (length ps) (start_pool ps q)"
proof -
  have "count_list ps Holding_sentinel = 0"
    using assms(2) by (induction ps) auto
  moreover have "ps ! i \<noteq> Exited" if "i < length ps" for i
    using assms(2) that by (auto simp: list_all_length)
  ultimately show ?thesis
    using assms(1) by (simp add: pool_inv_def start_pool_def sentinels_def)
qed

lemma run_inv:
  "run_schedule sched s = Some s' \<Longrightarrow> pool_inv k s \<Longrightarrow> pool_inv k s'"
  by (induction sched arbitrary: s) (auto split: option.splits dest: step_inv)

lemma run_steps_left:
  "run_schedule sched s = Some s' \<Longrightarrow> steps_left s' + length sched = steps_left s"
proof (induction sched arbitrary: s)
  case Nil
  then show ?case by simp
next
  case (Cons i sched)
  then obtain s1 where s1: "consumer_step i s = Some s1" and r: "run_schedule sched s1 = Some s'"
    by (auto split: option.splits)
  from Cons.IH [OF r] step_steps_left [OF s1] show ?case by simp
qed


lemma holding_exists:
  "count_list xs Holding_sentinel = Suc n \<Longrightarrow> \<exists>j<length xs. xs ! j = Holding_sentinel"
proof (induction xs)
  case Nil
  then show ?case by simp
next
  case (Cons x xs)
  show ?case
  proof (cases "x = Holding_sentinel")
    case True
    then show ?thesis by auto
  next
    case False
    with Cons.prems have "count_list xs Holding_sentinel = Suc n" by simp
    from Cons.IH [OF this] show ?thesis by auto
  qed
qed

lemma pool_progress:
  assumes inv: "pool_inv k s" and i: "i < k" and live: "pcs s ! i \<noteq> Exited"
  shows "\<exists>j<k. \<exists>s'. consumer_step j s = Some s'"
proof (cases "pcs s ! i")
  case Waiting
  show ?thesis
  proof (cases "shared_q s")
    case Nil
    with inv have "count_list (pcs s) Holding_sentinel = Suc 0"
      by (simp add: pool_inv_def sentinels_def)
    from holding_exists [OF this] obtain j where
      j: "j < length (pcs s)" "pcs s ! j = Holding_sentinel" by blast
    then have "\<exists>s'. consumer_step j s = Some s'"
      by (simp add: consumer_step_def)
    with j inv show ?thesis by (auto simp: pool_inv_def)
  next
    case (Cons x rest)
    with Waiting i inv have "\<exists>s'. consumer_step i s = Some s'"
      by (cases x) (simp_all add: consumer_step_def pool_inv_def)
    with i show ?thesis by blast
  qed
next
  case (Working a)
  with i inv have "\<exists>s'. consumer_step i s = Some s'"
    by (simp add: consumer_step_def pool_inv_def)
  with i show ?thesis by blast
next
  case Holding_sentinel
  with i inv have "\<exists>s'. consumer_step i s = Some s'"
    by (simp add: consumer_step_def pool_inv_def)
  with i show ?thesis by blast
next
  case Exited
  with live show ?thesis by simp
qed

lemma run_append:
  "run_schedule (a @ b) s = (case run_schedule a s of None \<Rightarrow> None | Some s' \<Rightarrow> run_schedule b s')"
  by (induction a arbitrary: s) (auto split: option.splits)

lemma pool_completes:
  "pool_inv k s \<Longrightarrow> \<exists>sched s'. run_schedule sched s = Some s' \<and> (\<forall>i<k. pcs s' ! i = Exited)"
proof (induction "steps_left s" arbitrary: s rule: less_induct)
  case less
  show ?case
  proof (cases "\<forall>i<k. pcs s ! i = Exited")
    case True
    then have "run_schedule [] s = Some s \<and> (\<forall>i<k. pcs s ! i = Exited)" by simp
    then show ?thesis by blast
  next
    case False
    then obtain i where "i < k" "pcs s ! i \<noteq> Exited" by blast
    from pool_progress [OF less.prems this] obtain j s1 where
      s1: "consumer_step j s = Some s1" by blast
    have "steps_left s1 < steps_left s"
      using step_steps_left [OF s1] by simp
    moreover have "pool_inv k s1"
      using s1 less.prems by (rule step_inv)
    ultimately obtain sched s' where
      "run_schedule sched s1 = Some s'" "\<forall>i<k. pcs s' ! i = Exited"
      using less.hyps by blast
    with s1 have "run_schedule (j # sched) s = Some s' \<and> (\<forall>i<k. pcs s' ! i = Exited)" by simp
    then show ?thesis by blast
  qed
qed

lemma pool_exited_all:
  assumes inv: "pool_inv k s" and ex: "\<forall>i<k. pcs s ! i = Exited"
  shows "count_list (shared_q s) Sentinel = 1 \<and> (\<forall>i<k. reposts s ! i = 1)"
proof -
  have "count_list xs Holding_sentinel = 0" if "\<forall>i<length xs. xs ! i = Exited"
    for xs :: "'a pc list"
    using that
  proof (induction xs)
    case Nil
    show ?case by simp
  next
    case (Cons x xs)
    from Cons.prems have "x = Exited" by auto
    moreover from Cons.prems have "\<forall>i<length xs. xs ! i = Exited" by auto
    ultimately show ?case using Cons.IH by simp
  qed
  with inv ex have "count_list (pcs s) Holding_sentinel = 0"
    by (simp add: pool_inv_def)
  with inv ex show ?thesis
    by (simp add: pool_inv_def sentinels_def)
qed


lemma repost_puts_sentinel:
  assumes "i < length (pcs s)" and "pcs s ! i = Holding_sentinel"
  shows "\<exists>s'. consumer_step i s = Some s' \<and> Sentinel \<in> set (shared_q s')
             \<and> pcs s' ! i = Exited"
  using assms by (simp add: consumer_step_def)

lemma sentinel_round:
  assumes "i < length (pcs s)" and "pcs s ! i = Waiting" and "shared_q s = Sentinel # rest"
  shows "run_schedule [i, i] s = Some (s\<lparr>shared_q := rest @ [Sentinel],
                               reposts := (reposts s)[i := reposts s ! i + 1],
                               pcs := (pcs s)[i := Exited]\<rparr>)"
  using assms by (simp add: consumer_step_def)

text \<open>
  C6. A worker that takes the sentinel puts it back once and leaves its loop, and that
  is its only put of the sentinel. So after one push of the sentinel on a queue shared
  by \<open>K\<close> workers: there is always exactly one sentinel, on the queue or in the hand
  of one worker; when the queue holds none, the worker that holds it can put it back
  and its next step does; while a worker has not left its loop some worker can step
  (no deadlock); every run ends after a bounded number of steps; and every run
  extends to one where all \<open>K\<close> workers have left their loop, each having put the
  sentinel back exactly once, with the sentinel still on the queue.
\<close>

theorem sentinel_fan_out:
  assumes one: "count_list q Sentinel = 1" and start: "list_all in_loop ps"
    and reach: "run_schedule sched (start_pool ps q) = Some s"
  shows "sentinels s = 1
       \<and> (\<forall>i<length ps. reposts s ! i = (if pcs s ! i = Exited then 1 else 0))
       \<and> (Sentinel \<notin> set (shared_q s) \<longrightarrow>
            (\<exists>i<length ps. pcs s ! i = Holding_sentinel
               \<and> (\<exists>s'. consumer_step i s = Some s' \<and> Sentinel \<in> set (shared_q s'))))
       \<and> ((\<exists>i<length ps. pcs s ! i \<noteq> Exited) \<longrightarrow>
            (\<exists>j<length ps. \<exists>s'. consumer_step j s = Some s'))
       \<and> length sched + steps_left s = steps_left (start_pool ps q)
       \<and> (\<exists>more s'. run_schedule (sched @ more) (start_pool ps q) = Some s'
             \<and> (\<forall>i<length ps. pcs s' ! i = Exited \<and> reposts s' ! i = 1)
             \<and> count_list (shared_q s') Sentinel = 1)
       \<and> (i < length (pcs t) \<and> pcs t ! i = Waiting \<and> shared_q t = Sentinel # rest \<longrightarrow>
            run_schedule [i, i] t
              = Some (t\<lparr>shared_q := rest @ [Sentinel],
                        reposts := (reposts t)[i := reposts t ! i + 1],
                        pcs := (pcs t)[i := Exited]\<rparr>))"
proof -
  let ?k = "length ps"
  have inv: "pool_inv ?k s"
    using reach start_pool_inv [OF one start] by (rule run_inv)
  then have a: "sentinels s = 1"
    and b: "\<forall>i<?k. reposts s ! i = (if pcs s ! i = Exited then 1 else 0)"
    and len: "length (pcs s) = ?k"
    by (simp_all add: pool_inv_def)
  have c: "\<exists>i<?k. pcs s ! i = Holding_sentinel
               \<and> (\<exists>s'. consumer_step i s = Some s' \<and> Sentinel \<in> set (shared_q s'))"
    if "Sentinel \<notin> set (shared_q s)"
  proof -
    from that have "count_list (shared_q s) Sentinel = 0" by (simp add: count_list_0_iff)
    with a have "count_list (pcs s) Holding_sentinel = Suc 0" by (simp add: sentinels_def)
    from holding_exists [OF this] obtain i where
      i: "i < length (pcs s)" "pcs s ! i = Holding_sentinel" by blast
    from repost_puts_sentinel [OF i] i len show ?thesis by auto
  qed
  have d: "\<exists>j<?k. \<exists>s'. consumer_step j s = Some s'" if "\<exists>i<?k. pcs s ! i \<noteq> Exited"
    using that pool_progress [OF inv] by blast
  have e: "length sched + steps_left s = steps_left (start_pool ps q)"
    using run_steps_left [OF reach] by simp
  from pool_completes [OF inv] obtain more s' where
    m: "run_schedule more s = Some s'" and ex: "\<forall>i<?k. pcs s' ! i = Exited" by blast
  have inv': "pool_inv ?k s'" using m inv by (rule run_inv)
  have "run_schedule (sched @ more) (start_pool ps q) = Some s'"
    using reach m by (simp add: run_append)
  moreover note pool_exited_all [OF inv' ex]
  ultimately have f: "\<exists>more s'. run_schedule (sched @ more) (start_pool ps q) = Some s'
             \<and> (\<forall>i<?k. pcs s' ! i = Exited \<and> reposts s' ! i = 1)
             \<and> count_list (shared_q s') Sentinel = 1"
    using ex by blast
  have g: "run_schedule [i, i] t
              = Some (t\<lparr>shared_q := rest @ [Sentinel],
                        reposts := (reposts t)[i := reposts t ! i + 1],
                        pcs := (pcs t)[i := Exited]\<rparr>)"
    if "i < length (pcs t) \<and> pcs t ! i = Waiting \<and> shared_q t = Sentinel # rest"
    using that by (intro sentinel_round) simp_all
  from a b c d e f g show ?thesis by blast
qed

theorem sentinel_fan_out_witness:
  "count_list [Item (5::nat), Sentinel] Sentinel = 1
   \<and> list_all in_loop [Waiting :: nat pc, Waiting]
   \<and> run_schedule [0, 1, 0] (start_pool [Waiting, Waiting] [Item (5::nat), Sentinel])
       = Some \<lparr>shared_q = [], pcs = [Waiting, Holding_sentinel], reposts = [0, 0],
               processed = [5]\<rparr>
   \<and> run_schedule [0, 1, 0, 1, 0, 0] (start_pool [Waiting, Waiting] [Item (5::nat), Sentinel])
       = Some \<lparr>shared_q = [Sentinel], pcs = [Exited, Exited], reposts = [1, 1],
               processed = [5]\<rparr>
   \<and> (\<exists>more s'. run_schedule ([0, 1, 0] @ more) (start_pool [Waiting, Waiting] [Item (5::nat), Sentinel])
          = Some s'
        \<and> (\<forall>i<length [Waiting :: nat pc, Waiting]. pcs s' ! i = Exited \<and> reposts s' ! i = 1)
        \<and> count_list (shared_q s') Sentinel = 1)"
proof -
  have a: "count_list [Item (5::nat), Sentinel] Sentinel = 1" by simp
  have b: "list_all in_loop [Waiting :: nat pc, Waiting]" by simp
  have c: "run_schedule [0, 1, 0] (start_pool [Waiting, Waiting] [Item (5::nat), Sentinel])
       = Some \<lparr>shared_q = [], pcs = [Waiting, Holding_sentinel], reposts = [0, 0],
               processed = [5]\<rparr>"
    by code_simp
  have d: "run_schedule [0, 1, 0, 1, 0, 0] (start_pool [Waiting, Waiting] [Item (5::nat), Sentinel])
       = Some \<lparr>shared_q = [Sentinel], pcs = [Exited, Exited], reposts = [1, 1],
               processed = [5]\<rparr>"
    by code_simp
  from sentinel_fan_out [OF a b c]
  have "\<exists>more s'. run_schedule ([0, 1, 0] @ more) (start_pool [Waiting, Waiting] [Item (5::nat), Sentinel])
          = Some s'
        \<and> (\<forall>i<length [Waiting :: nat pc, Waiting]. pcs s' ! i = Exited \<and> reposts s' ! i = 1)
        \<and> count_list (shared_q s') Sentinel = 1"
    by blast
  with a b c d show ?thesis by (intro conjI)
qed

section \<open>The normalised probabilities\<close>

lemma int_between:
  fixes n m :: int
  assumes "\<bar>of_int n - (of_int m :: real)\<bar> < 1"
  shows "n = m"
proof -
  have "\<bar>of_int (n - m) :: real\<bar> < 1" using assms by simp
  then have "\<bar>n - m\<bar> < 1" by (metis of_int_abs of_int_less_1_iff)
  then show ?thesis by simp
qed

lemma rel_up: "\<bar>t * (1 + c) - t\<bar> = \<bar>c\<bar> * \<bar>t :: real\<bar>"
proof -
  have "t * (1 + c) - t = c * t" by (simp add: algebra_simps)
  then show ?thesis by (simp only: abs_mult)
qed

lemma rel_down: "\<bar>t * (1 - c) - t\<bar> = \<bar>c\<bar> * \<bar>t :: real\<bar>"
proof -
  have "t * (1 - c) - t = - (c * t)" by (simp add: algebra_simps)
  then show ?thesis by (simp only: abs_minus abs_mult)
qed

lemma example_rounding_model: "float_model (1 / 2 ^ 24) 0 example_rounding_library"
proof -
  define c :: real where "c = 1 / 2 ^ 24"
  have c: "0 \<le> c" "\<bar>c\<bar> = c" by (simp_all add: c_def)
  have r: "\<exists>n::int. \<bar>of_int n - x * 10 ^ 6\<bar> \<le> 5 / 8
         \<and> \<bar>(of_int (round (x * 10 ^ 6)) / 10 ^ 6) * (1 - c) - of_int n / 10 ^ 6\<bar>
              \<le> c * \<bar>of_int n / 10 ^ 6 :: real\<bar>" for x :: real
  proof -
    define n where "n = round (x * 10 ^ 6)"
    have "\<bar>of_int n - x * 10 ^ 6\<bar> \<le> 1 / 2"
      unfolding n_def by (rule of_int_round_abs_le)
    then have a: "\<bar>of_int n - x * 10 ^ 6\<bar> \<le> 5 / 8" by simp
    have b: "\<bar>(of_int n / 10 ^ 6) * (1 - c) - of_int n / 10 ^ 6\<bar>
              \<le> c * \<bar>of_int n / 10 ^ 6 :: real\<bar>"
      unfolding rel_down c(2) by (rule order_refl)
    from a b show ?thesis unfolding n_def by blast
  qed
  have d: "\<bar>(x / y) * (1 + c) - x / y\<bar> \<le> c * (x / y) + 0"
    if "0 \<le> x \<and> 0 < y \<and> x / y \<le> 2" for x y :: real
  proof -
    have "\<bar>x / y\<bar> = x / y" using that by simp
    then show ?thesis unfolding rel_up c(2) by simp
  qed
  have s: "\<bar>(1 - x) * (1 + c) - (1 - x)\<bar> \<le> c * \<bar>1 - x\<bar>" for x :: real
    unfolding rel_up c(2) by (rule order_refl)
  have ad: "(1 - c) * (x + y) \<le> (x + y) * (1 - c)" for x y :: real
    by (simp add: mult.commute)
  have "float_model c 0
     (example_library
       \<lparr>float_add := (\<lambda>x y. (x + y) * (1 - c)),
        float_sub := (\<lambda>x y. (x - y) * (1 + c)),
        float_div := (\<lambda>x y. (x / y) * (1 + c)),
        round6 := (\<lambda>x. (of_int (round (x * 10 ^ 6)) / 10 ^ 6) * (1 - c))\<rparr>)"
    unfolding float_model_def
    using r d s ad by simp
  then show ?thesis
    unfolding example_rounding_library_def c_def .
qed

text \<open>
  C2. For classifier outputs \<open>a, b > 0\<close>, the two probabilities of lines 178 and 179,
  \<open>p0 = round(a / (a + b), 6)\<close> and \<open>p1 = round(1 - p0, 6)\<close>, computed in
  floating-point arithmetic of unit roundoff at most \<open>2^-24\<close>, satisfy
  \<open>|p0 + p1 - 1| \<le> 10^-6\<close>.
\<close>

theorem normalized_probabilities_sum:
  assumes fm: "float_model u eta L" and u0: "0 \<le> u" and u1: "u \<le> 1 / 2 ^ 24"
    and e0: "0 \<le> eta" and e1: "eta \<le> 1 / 10 ^ 9" and a: "0 < a" and b: "0 < b"
  shows "\<bar>fst (norm_probs L a b) + snd (norm_probs L a b) - 1\<bar> \<le> 1 / 10 ^ 6"
proof -
  have M: "(10::real) ^ 6 = 1000000" by simp
  have u7: "u \<le> 1 / 16777216" using u1 by simp
  have e9: "eta \<le> 1 / 1000000000" using e1 by simp
  have "u * u \<le> u * 1" using u0 u7 by (intro mult_left_mono) simp_all
  then have uu: "u * u \<le> u" by simp
  define s where "s = float_add L a b"
  define r where "r = a / s"
  define q where "q = float_div L a s"
  define p0 where "p0 = round6 L q"
  define d where "d = float_sub L 1 p0"
  define p1 where "p1 = round6 L d"
  have np: "norm_probs L a b = (p0, p1)"
    by (simp add: norm_probs_def Let_def p0_def p1_def d_def q_def s_def)
  have A: "(1 - u) * (a + b) \<le> s"
    using fm a b by (simp add: float_model_def s_def)
  have um: "0 < 1 - u" using u7 by simp
  have ab: "0 < a + b" using a b by simp
  have spos: "0 < s"
    using A mult_pos_pos [OF um ab] by simp
  have rpos: "0 < r" using a spos by (simp add: r_def)
  have "(1 - u) * a \<le> (1 - u) * (a + b)" using um b by simp
  then have "(1 - u) * a \<le> s" using A by simp
  then have "(1 - u) * r \<le> 1"
    using spos by (simp add: r_def field_simps)
  then have rle: "r \<le> 1 / (1 - u)"
    using um by (simp add: field_simps)
  have "1 / (1 - u) \<le> 1 + 2 * u"
  proof -
    have "0 \<le> u * (1 - 2 * u)"
      using u0 u7 by (intro mult_nonneg_nonneg) simp_all
    then have "1 \<le> (1 + 2 * u) * (1 - u)"
      by (simp add: algebra_simps)
    then show ?thesis using um by (simp add: pos_divide_le_eq)
  qed
  with rle have r1: "r \<le> 1 + 2 * u" by simp
  then have r2: "r \<le> 2" using u7 by simp
  have D: "\<bar>q - r\<bar> \<le> u * r + eta"
    using fm a spos r2 by (simp add: float_model_def q_def r_def)
  have ur: "0 \<le> u * r" using u0 rpos by simp
  have ur': "u * r \<le> r"
    using mult_right_mono [of u 1 r] u7 rpos by simp
  have qlo: "- eta \<le> q"
    using abs_le_D2 [OF D] ur' by linarith
  have "r + u * r \<le> (1 + 2 * u) + u * (1 + 2 * u)"
    using r1 u0 by (intro add_mono mult_left_mono) simp_all
  also have "\<dots> = 1 + 3 * u + 2 * (u * u)" by (simp add: algebra_simps)
  also have "\<dots> \<le> 1 + 5 * u" using uu by simp
  finally have rr: "r + u * r \<le> 1 + 5 * u" .
  have qhi: "q \<le> 1 + 5 * u + eta"
    using abs_le_D1 [OF D] rr by linarith
  have qabs: "\<bar>q\<bar> \<le> 5 / 4"
    using qlo qhi u7 e9 e0 by (intro abs_leI) linarith+
  from fm qabs have "\<exists>n::int. \<bar>of_int n - q * 10 ^ 6\<bar> \<le> 5 / 8
                   \<and> \<bar>round6 L q - of_int n / 10 ^ 6\<bar> \<le> u * \<bar>of_int n / 10 ^ 6\<bar>"
    unfolding float_model_def by blast
  then obtain n0 :: int where
    n0: "\<bar>of_int n0 - q * 1000000\<bar> \<le> 5 / 8"
    and P0: "\<bar>p0 - of_int n0 / 1000000\<bar> \<le> u * \<bar>of_int n0 / 1000000\<bar>"
    unfolding M p0_def by blast
  have n0lo: "0 \<le> n0"
  proof -
    have "(-1 :: real) < of_int n0"
      using abs_le_D2 [OF n0] qlo e9 by linarith
    then have "-1 < n0" by linarith
    then show ?thesis by simp
  qed
  have n0hi: "n0 \<le> 1000000"
  proof -
    have "(of_int n0 :: real) < 1000001"
      using abs_le_D1 [OF n0] qhi u7 e9 by linarith
    then have "n0 < 1000001" by linarith
    then show ?thesis by simp
  qed
  define t0 where "t0 = (of_int n0 :: real) / 1000000"
  have t0: "0 \<le> t0" "t0 \<le> 1"
    using n0lo n0hi by (simp_all add: t0_def)
  have P0': "\<bar>p0 - t0\<bar> \<le> u * t0"
    using P0 t0 by (simp add: t0_def)
  have ut0: "0 \<le> u * t0" "u * t0 \<le> u"
    using t0 u0 mult_left_mono [of t0 1 u] by simp_all
  have p0r: "0 \<le> p0" "p0 \<le> 2"
  proof -
    have "u * t0 \<le> t0" using mult_right_mono [of u 1 t0] u7 t0 by simp
    then show "0 \<le> p0" using abs_le_D2 [OF P0'] by linarith
    show "p0 \<le> 2" using abs_le_D1 [OF P0'] ut0 t0 u7 by linarith
  qed
  have S: "\<bar>d - (1 - p0)\<bar> \<le> u * \<bar>1 - p0\<bar>"
    using fm p0r by (simp add: float_model_def d_def)
  have one_p0: "\<bar>1 - p0\<bar> \<le> 1 + u"
    using abs_le_D1 [OF P0'] abs_le_D2 [OF P0'] t0 ut0 by (intro abs_leI) linarith+
  have "u * \<bar>1 - p0\<bar> \<le> u * (1 + u)"
    using one_p0 u0 by (rule mult_left_mono)
  also have "\<dots> = u + u * u" by (simp add: algebra_simps)
  also have "\<dots> \<le> 2 * u" using uu by simp
  finally have S': "\<bar>d - (1 - p0)\<bar> \<le> 2 * u" using S by simp
  have dm: "\<bar>d - (1 - t0)\<bar> \<le> 3 * u"
    using abs_le_D1 [OF S'] abs_le_D2 [OF S'] abs_le_D1 [OF P0'] abs_le_D2 [OF P0'] ut0
    by (intro abs_leI) linarith+
  have dabs: "\<bar>d\<bar> \<le> 5 / 4"
    using abs_le_D1 [OF dm] abs_le_D2 [OF dm] t0 u7 u0 by (intro abs_leI) linarith+
  from fm dabs have "\<exists>n::int. \<bar>of_int n - d * 10 ^ 6\<bar> \<le> 5 / 8
                   \<and> \<bar>round6 L d - of_int n / 10 ^ 6\<bar> \<le> u * \<bar>of_int n / 10 ^ 6\<bar>"
    unfolding float_model_def by blast
  then obtain n1 :: int where
    n1: "\<bar>of_int n1 - d * 1000000\<bar> \<le> 5 / 8"
    and P1: "\<bar>p1 - of_int n1 / 1000000\<bar> \<le> u * \<bar>of_int n1 / 1000000\<bar>"
    unfolding M p1_def by blast
  have m: "(of_int (1000000 - n0) :: real) = 1000000 - t0 * 1000000"
    by (simp add: t0_def)
  have "\<bar>of_int n1 - (of_int (1000000 - n0) :: real)\<bar> < 1"
    unfolding m
    using abs_le_D1 [OF n1] abs_le_D2 [OF n1] abs_le_D1 [OF dm] abs_le_D2 [OF dm] u7
    by (intro abs_less_iff [THEN iffD2] conjI) linarith+
  then have n1eq: "n1 = 1000000 - n0" by (rule int_between)
  define t1 where "t1 = (of_int n1 :: real) / 1000000"
  have t1: "t1 = 1 - t0"
    by (simp add: t1_def t0_def n1eq diff_divide_distrib)
  have t1pos: "0 \<le> t1" using t1 t0 by simp
  have P1': "\<bar>p1 - t1\<bar> \<le> u * t1"
    using P1 t1pos by (simp add: t1_def)
  have ut: "u * t0 + u * t1 = u" by (simp add: t1 algebra_simps)
  have "\<bar>p0 + p1 - 1\<bar> \<le> u"
    using abs_le_D1 [OF P0'] abs_le_D2 [OF P0'] abs_le_D1 [OF P1'] abs_le_D2 [OF P1'] ut t1
    by (intro abs_leI) linarith+
  then have "\<bar>p0 + p1 - 1\<bar> \<le> 1 / 1000000" using u7 by linarith
  then show ?thesis by (simp add: np)
qed

theorem normalized_probabilities_sum_witness:
  "float_model (1 / 2 ^ 24) 0 example_rounding_library
   \<and> (0::real) \<le> 1 / 2 ^ 24 \<and> (0::real) < 1 \<and> (0::real) < 3
   \<and> \<bar>fst (norm_probs example_rounding_library 1 3)
        + snd (norm_probs example_rounding_library 1 3) - 1\<bar> \<le> 1 / 10 ^ 6
   \<and> fst (norm_probs example_rounding_library 1 3)
        + snd (norm_probs example_rounding_library 1 3) \<noteq> 1"
proof -
  have ne: "fst (norm_probs example_rounding_library 1 3)
        + snd (norm_probs example_rounding_library 1 3) \<noteq> 1"
    by code_simp
  from normalized_probabilities_sum [OF example_rounding_model, of 1 3]
  have "\<bar>fst (norm_probs example_rounding_library 1 3)
        + snd (norm_probs example_rounding_library 1 3) - 1\<bar> \<le> 1 / 10 ^ 6"
    by simp
  with example_rounding_model ne show ?thesis by simp
qed

end
